theory Spec2Isabelle
  imports Complex_Main
begin

section \<open>Python values, dictionaries and the object store\<close>

text \<open>
  The program is \<^verbatim>\<open>utils.py\<close>: a statistics dictionary shared between the frame
  generator and the \<^verbatim>\<open>/stats\<close> endpoint, and the generator \<^verbatim>\<open>generate_frames\<close>.
  Python floats are modelled as reals and Python ints as \<open>int\<close>/\<open>nat\<close>. Dictionaries are
  mutable objects that live at an address of an explicit store; a dictionary's content is an
  association list in insertion order with unique keys. The lock \<^verbatim>\<open>_stats_lock\<close> is not
  modelled: every function below runs as one atomic state transformer.
\<close>

datatype py_error = KeyError | TypeError | ValueError | CvError

datatype pyval = PyNone | PyFloat real | PyInt int | PyStr string | PyRef nat

type_synonym pydict = "(string \<times> pyval) list"

text \<open>\<^verbatim>\<open>d[k] = v\<close>: an existing key keeps its position, a new key is appended.\<close>

fun setitem :: "('k \<times> 'v) list \<Rightarrow> 'k \<Rightarrow> 'v \<Rightarrow> ('k \<times> 'v) list" where
  "setitem [] k v = [(k, v)]"
| "setitem (p # ps) k v = (if fst p = k then (k, v) # ps else p # setitem ps k v)"

text \<open>\<^verbatim>\<open>d.get(k, default)\<close>.\<close>

definition dict_get :: "('k \<times> 'v) list \<Rightarrow> 'k \<Rightarrow> 'v \<Rightarrow> 'v" where
  "dict_get d k dflt = (case map_of d k of None \<Rightarrow> dflt | Some v \<Rightarrow> v)"

text \<open>
  A frame is the image read from the capture (an opaque identifier and the numbers of rows and
  columns of the array) together with the drawing operations applied to it so far;
  \<^verbatim>\<open>cv2.rectangle\<close> and \<^verbatim>\<open>cv2.putText\<close> are recorded, not rendered. The label
  \<^verbatim>\<open>f"{cls_name} {conf:.2f}"\<close> is kept as the pair of the class name and the confidence.
\<close>

datatype draw_op = Rectangle int int int int | PutText string real int int

record frame =
  image :: nat
  rows :: nat
  cols :: nat
  drawn :: "draw_op list"

record world =
  cells :: "nat \<Rightarrow> pydict"
  next_free :: nat
  clock :: "nat \<Rightarrow> real"
  ticks :: nat
  model_calls :: "frame list"
  stdout :: "string list"

text \<open>
  \<open>cells\<close> and \<open>next_free\<close> are the store of dictionary objects; \<open>clock\<close> is the
  sequence of values that successive calls of \<^verbatim>\<open>time.time()\<close> return and \<open>ticks\<close> the
  number of calls made so far; \<open>model_calls\<close> records the frames the detector was invoked on;
  \<open>stdout\<close> the printed lines.
\<close>

definition alloc :: "pydict \<Rightarrow> world \<Rightarrow> nat \<times> world" where
  "alloc d w = (next_free w, w\<lparr>cells := (cells w)(next_free w := d), next_free := Suc (next_free w)\<rparr>)"

definition time_time :: "world \<Rightarrow> real \<times> world" where
  "time_time w = (clock w (ticks w), w\<lparr>ticks := Suc (ticks w)\<rparr>)"

text \<open>The module-level dictionary \<^verbatim>\<open>_latest_stats\<close> is the object at address 0.\<close>

abbreviation (input) stats_addr :: nat where
  "stats_addr \<equiv> 0"

definition stats_set :: "string \<Rightarrow> pyval \<Rightarrow> world \<Rightarrow> world" where
  "stats_set k v w = w\<lparr>cells := (cells w)(stats_addr := setitem (cells w stats_addr) k v)\<rparr>"

text \<open>The state after the module is loaded (lines 24-29), for a given clock.\<close>

definition initial_world :: "(nat \<Rightarrow> real) \<Rightarrow> world" where
  "initial_world clk =
     \<lparr>cells = (\<lambda>_. [])
        (0 := [(''fps'', PyFloat 0), (''counts'', PyRef 1),
               (''last_update_ts'', PyFloat 0), (''alert'', PyRef 2)],
         1 := [],
         2 := [(''message'', PyStr []), (''ts'', PyFloat 0)]),
      next_free = 3, clock = clk, ticks = 0, model_calls = [], stdout = []\<rparr>"

text \<open>
  \<^verbatim>\<open>dict(x)\<close>: a new dictionary with the items of the mapping \<open>x\<close>. The empty string is an
  empty iterable; any other string, a number or \<^verbatim>\<open>None\<close> is refused.
\<close>

definition py_dict :: "pyval \<Rightarrow> world \<Rightarrow> py_error + nat \<times> world" where
  "py_dict x w =
     (case x of
        PyRef a \<Rightarrow> Inr (alloc (cells w a) w)
      | PyStr s \<Rightarrow> (if s = [] then Inr (alloc [] w) else Inl ValueError)
      | _ \<Rightarrow> Inl TypeError)"

text \<open>Truth value of \<^verbatim>\<open>alert_message\<close>, which is \<^verbatim>\<open>None\<close> or a string.\<close>

definition truthy :: "string option \<Rightarrow> bool" where
  "truthy m = (case m of None \<Rightarrow> False | Some s \<Rightarrow> s \<noteq> [])"

subsection \<open>The statistics store (lines 31-69)\<close>

text \<open>
  \<^verbatim>\<open>_update_latest_stats(fps, counts, alert_message=None)\<close>. \<open>counts\<close> is the content of
  the caller's mapping, which \<^verbatim>\<open>dict(counts)\<close> copies into a new object.
\<close>

definition update_latest_stats :: "real \<Rightarrow> pydict \<Rightarrow> string option \<Rightarrow> world \<Rightarrow> world" where
  "update_latest_stats fps counts alert_message w =
     (let w1 = stats_set ''fps'' (PyFloat fps) w;
          (a, w2) = alloc counts w1;
          w3 = stats_set ''counts'' (PyRef a) w2;
          (now, w4) = time_time w3;
          w5 = stats_set ''last_update_ts'' (PyFloat now) w4
      in (case alert_message of
            None \<Rightarrow> w5
          | Some m \<Rightarrow>
              (if m = [] then w5
               else
                 (let (now2, w6) = time_time w5;
                      (b, w7) = alloc [(''message'', PyStr m), (''ts'', PyFloat now2)] w6
                  in stats_set ''alert'' (PyRef b) w7))))"

text \<open>\<^verbatim>\<open>_set_alert(message)\<close>.\<close>

definition set_alert :: "pyval \<Rightarrow> world \<Rightarrow> world" where
  "set_alert message w =
     (let (now, w1) = time_time w;
          (b, w2) = alloc [(''message'', message), (''ts'', PyFloat now)] w1
      in stats_set ''alert'' (PyRef b) w2)"

text \<open>
  \<^verbatim>\<open>get_latest_stats()\<close>. The default arguments \<^verbatim>\<open>{}\<close> and
  \<^verbatim>\<open>{"message": "", "ts": 0.0}\<close> are evaluated, hence allocated, on every call. The
  result is the address of the new dictionary.
\<close>

definition get_latest_stats :: "world \<Rightarrow> py_error + nat \<times> world" where
  "get_latest_stats w =
     (let d = cells w stats_addr;
          fps = dict_get d ''fps'' (PyFloat 0);
          (e, w1) = alloc [] w
      in (case py_dict (dict_get d ''counts'' (PyRef e)) w1 of
            Inl err \<Rightarrow> Inl err
          | Inr (c, w2) \<Rightarrow>
              (let ts = dict_get d ''last_update_ts'' (PyFloat 0);
                   (e2, w3) = alloc [(''message'', PyStr []), (''ts'', PyFloat 0)] w2
               in (case py_dict (dict_get d ''alert'' (PyRef e2)) w3 of
                     Inl err \<Rightarrow> Inl err
                   | Inr (a, w4) \<Rightarrow>
                       Inr (alloc [(''fps'', fps), (''counts'', PyRef c),
                                   (''last_update_ts'', ts), (''alert'', PyRef a)] w4)))))"

section \<open>The detector and the allowlist (lines 12-16, 75-102)\<close>

definition allowed_classes :: "string list" where
  "allowed_classes =
     [''person'', ''car'', ''dog'', ''cat'', ''bicycle'', ''motorcycle'', ''bus'',
      ''truck'', ''traffic light'', ''fire hydrant'', ''stop sign'',
      ''parking meter'', ''bird'', ''horse'', ''sheep'', ''cow'']"

text \<open>
  A box carries \<^verbatim>\<open>int(box.cls[0])\<close>, the four integer coordinates of
  \<^verbatim>\<open>box.xyxy[0]\<close> and \<^verbatim>\<open>float(box.conf[0])\<close>. The model is opaque: \<open>detect\<close> is what a
  call \<^verbatim>\<open>model(frame, ...)\<close> returns and \<open>names\<close> is the dictionary \<^verbatim>\<open>model.names\<close>.
\<close>

record box =
  cls :: int
  xyxy :: "int \<times> int \<times> int \<times> int"
  conf :: real

record result =
  boxes :: "box list"

record yolo =
  detect :: "frame \<Rightarrow> result list"
  names :: "int \<Rightarrow> string option"

definition is_allowed_class :: "yolo \<Rightarrow> int \<Rightarrow> py_error + bool" where
  "is_allowed_class model cls_id =
     (case names model cls_id of
        None \<Rightarrow> Inl KeyError
      | Some cls_name \<Rightarrow> Inr (cls_name \<in> set allowed_classes))"

text \<open>The inner and the outer loop of \<^verbatim>\<open>draw_boxes(frame, results, model)\<close>.\<close>

fun draw_box_list :: "frame \<Rightarrow> box list \<Rightarrow> yolo \<Rightarrow> py_error + frame" where
  "draw_box_list fr [] model = Inr fr"
| "draw_box_list fr (b # bs) model =
     (case names model (cls b) of
        None \<Rightarrow> Inl KeyError
      | Some cls_name \<Rightarrow>
          (case is_allowed_class model (cls b) of
             Inl err \<Rightarrow> Inl err
           | Inr allowed \<Rightarrow>
               (if \<not> allowed then draw_box_list fr bs model
                else
                  (case xyxy b of
                     (x1, y1, x2, y2) \<Rightarrow>
                       draw_box_list
                         (fr\<lparr>drawn := drawn fr @
                                [Rectangle x1 y1 x2 y2, PutText cls_name (conf b) x1 (y1 - 10)]\<rparr>)
                         bs model))))"

fun draw_boxes :: "frame \<Rightarrow> result list \<Rightarrow> yolo \<Rightarrow> py_error + frame" where
  "draw_boxes fr [] model = Inr fr"
| "draw_boxes fr (r # rs) model =
     (case draw_box_list fr (boxes r) model of
        Inl err \<Rightarrow> Inl err
      | Inr fr' \<Rightarrow> draw_boxes fr' rs model)"

section \<open>The frame generator (lines 105-184)\<close>

subsection \<open>Counting, plurality class and message text\<close>

text \<open>Lines 140-147: the local dictionary \<^verbatim>\<open>counts\<close>, filled box by box.\<close>

fun count_box_list :: "yolo \<Rightarrow> box list \<Rightarrow> (string \<times> int) list \<Rightarrow> py_error + (string \<times> int) list" where
  "count_box_list model [] counts = Inr counts"
| "count_box_list model (b # bs) counts =
     (case is_allowed_class model (cls b) of
        Inl err \<Rightarrow> Inl err
      | Inr allowed \<Rightarrow>
          (if \<not> allowed then count_box_list model bs counts
           else
             (case names model (cls b) of
                None \<Rightarrow> Inl KeyError
              | Some cls_name \<Rightarrow>
                  count_box_list model bs
                    (setitem counts cls_name (dict_get counts cls_name 0 + 1)))))"

fun count_results :: "yolo \<Rightarrow> result list \<Rightarrow> (string \<times> int) list \<Rightarrow> py_error + (string \<times> int) list" where
  "count_results model [] counts = Inr counts"
| "count_results model (r # rs) counts =
     (case count_box_list model (boxes r) counts of
        Inl err \<Rightarrow> Inl err
      | Inr counts' \<Rightarrow> count_results model rs counts')"

text \<open>
  \<^verbatim>\<open>max(counts.items(), key=lambda x: x[1])\<close>: the running best item is replaced only by
  a strictly larger one; the empty sequence raises.
\<close>

fun max_from :: "(string \<times> int) \<Rightarrow> (string \<times> int) list \<Rightarrow> (string \<times> int)" where
  "max_from best [] = best"
| "max_from best (x # xs) = max_from (if snd best < snd x then x else best) xs"

definition py_max_items :: "(string \<times> int) list \<Rightarrow> py_error + (string \<times> int)" where
  "py_max_items items = (case items of [] \<Rightarrow> Inl ValueError | x # xs \<Rightarrow> Inr (max_from x xs))"

text \<open>Decimal rendering of an integer, as an f-string does.\<close>

definition digit_char :: "nat \<Rightarrow> char" where
  "digit_char d = ''0123456789'' ! d"

fun str_nat :: "nat \<Rightarrow> string" where
  "str_nat n = (if n < 10 then [digit_char n] else str_nat (n div 10) @ [digit_char (n mod 10)])"

declare str_nat.simps [simp del]

definition str_int :: "int \<Rightarrow> string" where
  "str_int i = (if i < 0 then CHR ''-'' # str_nat (nat (- i)) else str_nat (nat i))"

definition alert_text :: "int \<Rightarrow> string \<Rightarrow> string" where
  "alert_text count detected_class = str_int count @ '' '' @ detected_class @ '' detected''"

definition detected_text :: "int \<Rightarrow> string \<Rightarrow> string" where
  "detected_text count detected_class =
     ''Detected '' @ str_int count @ '' '' @ detected_class @ ''(s)''"

subsection \<open>Capture, generator state and result of a resumption\<close>

text \<open>
  The capture \<^verbatim>\<open>cap\<close>: the frames it will still deliver and the number of calls of
  \<^verbatim>\<open>cap.release()\<close> so far. \<^verbatim>\<open>cap.read()\<close> delivers the next frame, or
  \<^verbatim>\<open>ret = False\<close> when there is none (a source that failed to open delivers none).
  The two \<^verbatim>\<open>cap.set\<close> calls are hints without effect on the model.
\<close>

record capture =
  pending :: "frame list"
  released :: nat

definition VideoCapture :: "frame list \<Rightarrow> capture" where
  "VideoCapture source = \<lparr>pending = source, released = 0\<rparr>"

definition cap_read :: "capture \<Rightarrow> frame option \<times> capture" where
  "cap_read c = (case pending c of [] \<Rightarrow> (None, c) | fr # rest \<Rightarrow> (Some fr, c\<lparr>pending := rest\<rparr>))"

definition cap_release :: "capture \<Rightarrow> capture" where
  "cap_release c = c\<lparr>released := Suc (released c)\<rparr>"

text \<open>
  A generator object is created without running its body (\<open>Created\<close>), is suspended at the
  \<^verbatim>\<open>yield\<close> between resumptions (\<open>Suspended\<close>) and is \<open>Finished\<close> after its body
  returned, raised or was closed. The other fields are the local variables.
\<close>

datatype gen_status = Created | Suspended | Finished

record gen_state =
  status :: gen_status
  cap :: capture
  frame_count :: nat
  last_results :: "result list option"
  smoothed_fps :: real
  last_alert_time :: real

text \<open>
  A chunk stands for the bytes of one multipart part: the JPEG encoding of the frame after
  \<^verbatim>\<open>cv2.resize\<close> by \<open>scale\<close>.
\<close>

record chunk =
  encoded :: frame
  scaled_by :: real

text \<open>
  Line 174, \<^verbatim>\<open>cv2.resize(frame, (0, 0), fx=scale, fy=scale)\<close>. With the size \<^verbatim>\<open>(0, 0)\<close>
  OpenCV computes the size of the result from the factors: the number of columns times
  \<open>scale\<close> and the number of rows times \<open>scale\<close>, each rounded to the nearest integer
  (\<open>cvRound\<close>, a half goes to the even neighbour). It raises \<^verbatim>\<open>cv2.error\<close> unless the
  factor is positive and both numbers are positive, which also excludes an empty image. The
  pixels of the result are not computed: the resized image is the pair of the frame and the
  factor. Lines 177-178, \<^verbatim>\<open>cv2.imencode\<close> of that image, which is not empty, and
  \<^verbatim>\<open>tobytes\<close>, do not fail. Running out of memory for a very large result is not
  modelled.
\<close>

definition cvRound :: "real \<Rightarrow> int" where
  "cvRound x =
     (let f = \<lfloor>x\<rfloor>; d = x - of_int f
      in if d < 1 / 2 then f else if 1 / 2 < d then f + 1 else if even f then f else f + 1)"

definition resize_ok :: "frame \<Rightarrow> real \<Rightarrow> bool" where
  "resize_ok fr scale \<longleftrightarrow>
     0 < scale \<and> 0 < cvRound (real (cols fr) * scale) \<and> 0 < cvRound (real (rows fr) * scale)"

definition cv2_resize :: "frame \<Rightarrow> real \<Rightarrow> py_error + frame \<times> real" where
  "cv2_resize fr scale = (if resize_ok fr scale then Inr (fr, scale) else Inl CvError)"

definition cv2_imencode :: "frame \<times> real \<Rightarrow> chunk" where
  "cv2_imencode resized = \<lparr>encoded = fst resized, scaled_by = snd resized\<rparr>"

datatype outcome = Yielded chunk | StopIteration | Raised py_error

definition alert_cooldown :: real where
  "alert_cooldown = 3"

definition generate_frames :: gen_state where
  "generate_frames =
     \<lparr>status = Created, cap = VideoCapture [], frame_count = 0, last_results = None,
      smoothed_fps = 0, last_alert_time = 0\<rparr>"

text \<open>Lines 107-117, run by the first resumption.\<close>

definition gen_init :: "frame list \<Rightarrow> gen_state \<Rightarrow> gen_state" where
  "gen_init source st =
     st\<lparr>cap := VideoCapture source, frame_count := 0, last_results := None,
        smoothed_fps := 0, last_alert_time := 0\<rparr>"

definition call_model :: "yolo \<Rightarrow> frame \<Rightarrow> world \<Rightarrow> result list \<times> world" where
  "call_model model fr w = (detect model fr, w\<lparr>model_calls := model_calls w @ [fr]\<rparr>)"

definition print_line :: "string \<Rightarrow> world \<Rightarrow> world" where
  "print_line s w = w\<lparr>stdout := stdout w @ [s]\<rparr>"

text \<open>Lines 133-136.\<close>

definition instant_of :: "real \<Rightarrow> real" where
  "instant_of infer_dt = 1 / max infer_dt (1 / 1000000)"

definition smooth :: "real \<Rightarrow> real \<Rightarrow> real" where
  "smooth smoothed instant_fps =
     (if smoothed = 0 then instant_fps else 0.9 * smoothed + 0.1 * instant_fps)"

text \<open>
  Lines 149-165: the alert decision for the counts of this frame. The result is the value of
  \<^verbatim>\<open>alert_message\<close> and the updated locals.
\<close>

definition alert_policy ::
  "(string \<times> int) list \<Rightarrow> gen_state \<Rightarrow> world \<Rightarrow> (py_error + string option \<times> gen_state) \<times> world" where
  "alert_policy counts st w =
     (if counts \<noteq> [] then
        (let (current_time, w1) = time_time w
         in (case py_max_items counts of
               Inl err \<Rightarrow> (Inl err, w1)
             | Inr item \<Rightarrow>
                 (let detected_class = fst item
                  in (case map_of counts detected_class of
                        None \<Rightarrow> (Inl KeyError, w1)
                      | Some count \<Rightarrow>
                          (let w2 = print_line (detected_text count detected_class) w1;
                               alert_message =
                                 (if current_time - last_alert_time st > alert_cooldown
                                  then Some (alert_text count detected_class) else None);
                               st' = (if truthy alert_message
                                      then st\<lparr>last_alert_time := current_time\<rparr> else st)
                           in (Inr (alert_message, st'), w2))))))
      else (Inr (None, st), w))"

text \<open>Lines 128-167: the body of \<^verbatim>\<open>if frame_count % 6 == 0\<close>.\<close>

definition sampling :: "yolo \<Rightarrow> frame \<Rightarrow> gen_state \<Rightarrow> world \<Rightarrow> (py_error + gen_state) \<times> world" where
  "sampling model fr st w =
     (let (t0, w1) = time_time w;
          (results, w2) = call_model model fr w1;
          (t1, w3) = time_time w2;
          infer_dt = t1 - t0;
          instant_fps = instant_of infer_dt;
          st1 = st\<lparr>smoothed_fps := smooth (smoothed_fps st) instant_fps\<rparr>;
          st2 = st1\<lparr>last_results := Some results\<rparr>
      in (case count_results model results [] of
            Inl err \<Rightarrow> (Inl err, w3)
          | Inr counts \<Rightarrow>
              (case alert_policy counts st2 w3 of
                 (Inl err, w4) \<Rightarrow> (Inl err, w4)
               | (Inr (alert_message, st3), w4) \<Rightarrow>
                   (Inr st3,
                    update_latest_stats (smoothed_fps st3)
                      (map (\<lambda>(k, n). (k, PyInt n)) counts) alert_message w4))))"

text \<open>Lines 169-171: boxes are drawn when there are detection results.\<close>

definition overlay :: "yolo \<Rightarrow> frame \<Rightarrow> result list option \<Rightarrow> py_error + frame" where
  "overlay model fr results =
     (case results of None \<Rightarrow> Inr fr | Some rs \<Rightarrow> draw_boxes fr rs model)"

text \<open>
  Lines 119-184: one pass of the \<^verbatim>\<open>while\<close> loop, from \<^verbatim>\<open>cap.read()\<close> to the
  \<^verbatim>\<open>yield\<close>, or to \<^verbatim>\<open>cap.release()\<close> after the \<^verbatim>\<open>break\<close>. An exception leaves the
  generator finished without reaching line 184.
\<close>

definition loop_pass :: "yolo \<Rightarrow> real \<Rightarrow> gen_state \<Rightarrow> world \<Rightarrow> outcome \<times> gen_state \<times> world" where
  "loop_pass model scale st w =
     (case cap_read (cap st) of
        (None, c) \<Rightarrow> (StopIteration, st\<lparr>cap := cap_release c, status := Finished\<rparr>, w)
      | (Some fr, c) \<Rightarrow>
          (let st1 = st\<lparr>cap := c, frame_count := frame_count st + 1\<rparr>
           in (case (if frame_count st1 mod 6 = 0 then sampling model fr st1 w
                     else (Inr st1, w)) of
                 (Inl err, w') \<Rightarrow> (Raised err, st1\<lparr>status := Finished\<rparr>, w')
               | (Inr st2, w') \<Rightarrow>
                   (case overlay model fr (last_results st2) of
                      Inl err \<Rightarrow> (Raised err, st2\<lparr>status := Finished\<rparr>, w')
                    | Inr fr' \<Rightarrow>
                        (case cv2_resize fr' scale of
                           Inl err \<Rightarrow> (Raised err, st2\<lparr>status := Finished\<rparr>, w')
                         | Inr resized \<Rightarrow>
                             (Yielded (cv2_imencode resized), st2\<lparr>status := Suspended\<rparr>, w'))))))"

text \<open>
  \<^verbatim>\<open>next(g)\<close> for the generator \<^verbatim>\<open>g = generate_frames(model, source, scale)\<close>: a
  finished generator raises \<^verbatim>\<open>StopIteration\<close> again and does nothing else.
\<close>

definition gen_next ::
  "yolo \<Rightarrow> frame list \<Rightarrow> real \<Rightarrow> gen_state \<times> world \<Rightarrow> outcome \<times> gen_state \<times> world" where
  "gen_next model source scale c =
     (case c of (st, w) \<Rightarrow>
        (case status st of
           Finished \<Rightarrow> (StopIteration, st, w)
         | Created \<Rightarrow> loop_pass model scale (gen_init source st) w
         | Suspended \<Rightarrow> loop_pass model scale st w))"


text \<open>The configuration after \<open>k\<close> resumptions, and the outcome of resumption \<open>k + 1\<close>.\<close>

definition after :: "yolo \<Rightarrow> frame list \<Rightarrow> real \<Rightarrow> nat \<Rightarrow> gen_state \<times> world \<Rightarrow> gen_state \<times> world" where
  "after model source scale k c = ((\<lambda>c'. snd (gen_next model source scale c')) ^^ k) c"


section \<open>Observations and well-formed states of the store\<close>

text \<open>
  In a well-formed state the statistics dictionary has the keys \<^verbatim>\<open>"fps"\<close> and
  \<^verbatim>\<open>"last_update_ts"\<close> and refers, under \<^verbatim>\<open>"counts"\<close> and
  \<^verbatim>\<open>"alert"\<close>, to allocated dictionaries other than itself, and the alert dictionary has
  exactly the keys \<^verbatim>\<open>"message"\<close> and \<^verbatim>\<open>"ts"\<close>.
\<close>

definition store_ok :: "world \<Rightarrow> bool" where
  "store_ok w \<longleftrightarrow>
     map_of (cells w stats_addr) ''fps'' \<noteq> None \<and>
     map_of (cells w stats_addr) ''last_update_ts'' \<noteq> None \<and>
     (case map_of (cells w stats_addr) ''counts'' of
        Some (PyRef c) \<Rightarrow> 0 < c \<and> c < next_free w
      | _ \<Rightarrow> False) \<and>
     (case map_of (cells w stats_addr) ''alert'' of
        Some (PyRef a) \<Rightarrow> 0 < a \<and> a < next_free w \<and> map fst (cells w a) = [''message'', ''ts'']
      | _ \<Rightarrow> False)"

text \<open>
  The snapshot held by the dictionary at an address: its \<^verbatim>\<open>fps\<close> and
  \<^verbatim>\<open>last_update_ts\<close> values and the contents of the dictionaries it refers to under
  \<^verbatim>\<open>counts\<close> and \<^verbatim>\<open>alert\<close>.
\<close>

definition deref :: "world \<Rightarrow> pyval option \<Rightarrow> pydict option" where
  "deref w v = (case v of Some (PyRef a) \<Rightarrow> Some (cells w a) | _ \<Rightarrow> None)"

definition snapshot :: "world \<Rightarrow> nat \<Rightarrow> pyval option \<times> pydict option \<times> pyval option \<times> pydict option" where
  "snapshot w a =
     (map_of (cells w a) ''fps'', deref w (map_of (cells w a) ''counts''),
      map_of (cells w a) ''last_update_ts'', deref w (map_of (cells w a) ''alert''))"

text \<open>
  The calls that reach the store: the two writers and the reader. The states of the store
  that the program can be in are those that a sequence of calls produces from the initial one.
\<close>

datatype store_call = Update real pydict "string option" | SetAlert pyval | Read

fun do_call :: "store_call \<Rightarrow> world \<Rightarrow> world" where
  "do_call (Update fps counts alert_message) w = update_latest_stats fps counts alert_message w"
| "do_call (SetAlert message) w = set_alert message w"
| "do_call Read w = (case get_latest_stats w of Inl err \<Rightarrow> w | Inr (r, w') \<Rightarrow> w')"

definition do_calls :: "store_call list \<Rightarrow> world \<Rightarrow> world" where
  "do_calls cs w = fold do_call cs w"

section \<open>Auxiliary notions for the generator\<close>

text \<open>
  Every class identifier in a list of results is a key of \<^verbatim>\<open>model.names\<close>, so that no
  lookup raises \<^verbatim>\<open>KeyError\<close>.
\<close>

definition results_named :: "yolo \<Rightarrow> result list \<Rightarrow> bool" where
  "results_named model rs \<longleftrightarrow> (\<forall>r \<in> set rs. \<forall>b \<in> set (boxes r). names model (cls b) \<noteq> None)"

text \<open>A counts dictionary with unique keys and counts of at least one.\<close>

definition counts_wf :: "(string \<times> int) list \<Rightarrow> bool" where
  "counts_wf c \<longleftrightarrow> distinct (map fst c) \<and> (\<forall>p \<in> set c. 1 \<le> snd p)"

text \<open>
  For a sampling pass that starts in world \<open>w\<close>: the measured inference time
  \<^verbatim>\<open>infer_dt\<close> (the difference of the first two clock values) and the value of
  \<^verbatim>\<open>current_time\<close> (the third clock value, read when the counts are not empty).
\<close>

definition sample_dt :: "world \<Rightarrow> real" where
  "sample_dt w = clock w (Suc (ticks w)) - clock w (ticks w)"

definition sample_time :: "world \<Rightarrow> real" where
  "sample_time w = clock w (Suc (Suc (ticks w)))"

text \<open>The items of a counts dictionary as stored: the counts are Python ints.\<close>

definition stored_counts :: "(string \<times> int) list \<Rightarrow> pydict" where
  "stored_counts counts = map (\<lambda>(k, n). (k, PyInt n)) counts"

text \<open>
  The locals with which the next pass of the loop starts: a generator that was never resumed
  runs lines 107-117 first.
\<close>

definition ready :: "frame list \<Rightarrow> gen_state \<Rightarrow> gen_state" where
  "ready source st = (if status st = Created then gen_init source st else st)"

text \<open>
  The plurality item of a counts dictionary, and the value of \<^verbatim>\<open>alert_message\<close> that a
  sampling pass computes from the counts, the current time and the time of the last alert.
\<close>

definition plurality :: "(string \<times> int) list \<Rightarrow> string \<times> int" where
  "plurality counts = (case py_max_items counts of Inl err \<Rightarrow> ([], 0) | Inr item \<Rightarrow> item)"

definition alert_of :: "(string \<times> int) list \<Rightarrow> real \<Rightarrow> real \<Rightarrow> string option" where
  "alert_of counts now prev =
     (if counts \<noteq> [] \<and> now - prev > 3
      then Some (alert_text (snd (plurality counts)) (fst (plurality counts))) else None)"

text \<open>
  The world in which a sampling pass calls \<^verbatim>\<open>_update_latest_stats\<close>: the detector was
  called, two or three clock values were read and, for non-empty counts, a line was printed.
\<close>

definition before_update :: "frame \<Rightarrow> (string \<times> int) list \<Rightarrow> world \<Rightarrow> world" where
  "before_update fr counts w =
     (if counts = [] then w\<lparr>model_calls := model_calls w @ [fr], ticks := Suc (Suc (ticks w))\<rparr>
      else w\<lparr>model_calls := model_calls w @ [fr], ticks := Suc (Suc (Suc (ticks w))),
             stdout := stdout w @
               [detected_text (snd (plurality counts)) (fst (plurality counts))]\<rparr>)"

text \<open>No frame of the source makes the detector return a class identifier without a name.\<close>

definition source_named :: "yolo \<Rightarrow> frame list \<Rightarrow> bool" where
  "source_named model source \<longleftrightarrow> (\<forall>fr \<in> set source. results_named model (detect model fr))"

text \<open>
  Every frame of the source can be resized by \<open>scale\<close>, so that line 174 does not raise
  \<^verbatim>\<open>cv2.error\<close>; and the two conditions on a source together.
\<close>

definition source_resizable :: "real \<Rightarrow> frame list \<Rightarrow> bool" where
  "source_resizable scale source \<longleftrightarrow> (\<forall>fr \<in> set source. resize_ok fr scale)"

definition source_ok :: "yolo \<Rightarrow> frame list \<Rightarrow> real \<Rightarrow> bool" where
  "source_ok model source scale \<longleftrightarrow> source_named model source \<and> source_resizable scale source"

text \<open>
  How a pass that reached line 174 with the frame \<open>fr\<close> ends: with the chunk, and the
  generator suspended at the \<^verbatim>\<open>yield\<close>, or with \<^verbatim>\<open>cv2.error\<close>, and the generator
  finished.
\<close>

definition sent :: "frame \<Rightarrow> real \<Rightarrow> outcome" where
  "sent fr scale =
     (if resize_ok fr scale then Yielded \<lparr>encoded = fr, scaled_by = scale\<rparr> else Raised CvError)"

definition status_sent :: "frame \<Rightarrow> real \<Rightarrow> gen_status" where
  "status_sent fr scale = (if resize_ok fr scale then Suspended else Finished)"

text \<open>
  The detection results that are current after \<open>n\<close> frames: none before the sixth frame,
  afterwards those of the last frame whose number is a multiple of six.
\<close>

definition current_results :: "yolo \<Rightarrow> frame list \<Rightarrow> nat \<Rightarrow> result list option" where
  "current_results model source n =
     (if n < 6 then None else Some (detect model (source ! (n - n mod 6 - 1))))"

text \<open>
  The counts that the next resumption builds, when it is a sampling pass whose counting does
  not raise.
\<close>

definition next_counts :: "yolo \<Rightarrow> frame list \<Rightarrow> gen_state \<times> world \<Rightarrow> (string \<times> int) list option" where
  "next_counts model source c =
     (if status (fst c) = Finished then None
      else (case pending (cap (ready source (fst c))) of
              [] \<Rightarrow> None
            | fr # rest \<Rightarrow>
                (if Suc (frame_count (ready source (fst c))) mod 6 = 0
                 then (case count_results model (detect model fr) [] of
                         Inl err \<Rightarrow> None
                       | Inr counts \<Rightarrow> Some counts)
                 else None)))"

text \<open>
  What the \<^verbatim>\<open>/stats\<close> endpoint can observe of the store: the entries of the statistics
  dictionary and the contents of its counts and alert dictionaries. An alert was emitted
  between two states when the \<^verbatim>\<open>alert\<close> entry refers to another object.
\<close>

definition fps_now :: "world \<Rightarrow> pyval option" where
  "fps_now w = map_of (cells w stats_addr) ''fps''"

definition counts_now :: "world \<Rightarrow> pydict option" where
  "counts_now w = deref w (map_of (cells w stats_addr) ''counts'')"

definition alert_now :: "world \<Rightarrow> pydict option" where
  "alert_now w = deref w (map_of (cells w stats_addr) ''alert'')"

definition emitted :: "world \<Rightarrow> world \<Rightarrow> bool" where
  "emitted w w' \<longleftrightarrow>
     map_of (cells w' stats_addr) ''alert'' \<noteq> map_of (cells w stats_addr) ''alert''"

definition counts_allowed :: "world \<Rightarrow> bool" where
  "counts_allowed w \<longleftrightarrow>
     (case counts_now w of None \<Rightarrow> False | Some d \<Rightarrow> fst ` set d \<subseteq> set allowed_classes)"




text \<open>
  On every frame of the source the detector returns one result with one box, whose class is
  named \<^verbatim>\<open>person\<close>.
\<close>

definition one_person :: "yolo \<Rightarrow> frame list \<Rightarrow> bool" where
  "one_person model source \<longleftrightarrow>
     (\<forall>fr \<in> set source.
        (case detect model fr of
           [r] \<Rightarrow> (case boxes r of [b] \<Rightarrow> names model (cls b) = Some ''person'' | _ \<Rightarrow> False)
         | _ \<Rightarrow> False))"

section \<open>Example inputs\<close>

text \<open>
  A model that finds a person, a laptop and two cars in every frame, a model that finds one
  person in every frame, a source of twelve frames of 640 by 480 pixels, and four clocks.
  \<open>wall_clock\<close> advances by ten milliseconds per reading. \<open>slow_clock\<close> is the clock seen with a source
  of one frame per second: the five readings of a sampling pass are ten milliseconds apart and
  successive sampling passes are six seconds apart. With \<open>warmup_clock\<close> the first two
  readings are twenty milliseconds apart and all later ones ten. \<open>zero_clock\<close> is a test
  clock that starts at zero.
\<close>

definition frame_no :: "nat \<Rightarrow> frame" where
  "frame_no i = \<lparr>image = i, rows = 480, cols = 640, drawn = []\<rparr>"

definition box_of :: "int \<Rightarrow> box" where
  "box_of c = \<lparr>cls = c, xyxy = (10, 20, 110, 220), conf = 0.5\<rparr>"

definition coco_names :: "int \<Rightarrow> string option" where
  "coco_names i =
     (if i = 0 then Some ''person'' else if i = 2 then Some ''car''
      else if i = 63 then Some ''laptop'' else None)"

definition street_model :: yolo where
  "street_model =
     \<lparr>detect = (\<lambda>fr. [\<lparr>boxes = [box_of 0, box_of 63, box_of 2, box_of 2]\<rparr>]),
      names = coco_names\<rparr>"

definition person_model :: yolo where
  "person_model = \<lparr>detect = (\<lambda>fr. [\<lparr>boxes = [box_of 0]\<rparr>]), names = coco_names\<rparr>"

text \<open>A model that finds a laptop, which is not an allowed class, in every frame.\<close>

definition laptop_model :: yolo where
  "laptop_model = \<lparr>detect = (\<lambda>fr. [\<lparr>boxes = [box_of 63]\<rparr>]), names = coco_names\<rparr>"

definition twelve_frames :: "frame list" where
  "twelve_frames = map frame_no [1, 2, 3, 4, 5, 6, 7, 8, 9, 10, 11, 12]"

definition wall_clock :: "nat \<Rightarrow> real" where
  "wall_clock n = 1000 + real n / 100"




text \<open>A generator suspended after five frames, with one more frame to read.\<close>

definition after_five :: gen_state where
  "after_five =
     \<lparr>status = Suspended, cap = \<lparr>pending = [frame_no 6], released = 0\<rparr>, frame_count = 5,
      last_results = None, smoothed_fps = 0, last_alert_time = 0\<rparr>"

section \<open>Properties of the statistics store\<close>

subsection \<open>Dictionary assignment\<close>

lemma map_of_setitem: "map_of (setitem d k v) k' = (if k' = k then Some v else map_of d k')"
  by (induction d) auto

lemma keys_setitem:
  "map fst (setitem d k v) = (if k \<in> fst ` set d then map fst d else map fst d @ [k])"
  by (induction d) auto

lemma distinct_setitem: "distinct (map fst d) \<Longrightarrow> distinct (map fst (setitem d k v))"
  by (simp add: keys_setitem)

lemma dict_get_setitem:
  "dict_get (setitem d k v) k' dflt = (if k' = k then v else dict_get d k' dflt)"
  by (simp add: dict_get_def map_of_setitem)

subsection \<open>Effect of the writers and of the reader\<close>

lemma uls_frame:
  "clock (update_latest_stats fps counts am w) = clock w"
  "model_calls (update_latest_stats fps counts am w) = model_calls w"
  "stdout (update_latest_stats fps counts am w) = stdout w"
  "ticks (update_latest_stats fps counts am w) = ticks w + (if truthy am then 2 else 1)"
  "next_free (update_latest_stats fps counts am w) = next_free w + (if truthy am then 2 else 1)"
  by (simp_all add: update_latest_stats_def alloc_def time_time_def stats_set_def truthy_def Let_def
      split: option.splits)

lemma uls_cells_other:
  "a \<noteq> 0 \<Longrightarrow> a < next_free w \<Longrightarrow> cells (update_latest_stats fps counts am w) a = cells w a"
  by (simp add: update_latest_stats_def alloc_def time_time_def stats_set_def Let_def
      split: option.splits)

lemma uls_cell0:
  "0 < next_free w \<Longrightarrow>
   cells (update_latest_stats fps counts am w) 0 =
     (let d = setitem (setitem (setitem (cells w 0) ''fps'' (PyFloat fps))
                 ''counts'' (PyRef (next_free w))) ''last_update_ts'' (PyFloat (clock w (ticks w)))
      in if truthy am then setitem d ''alert'' (PyRef (Suc (next_free w))) else d)"
  by (simp add: update_latest_stats_def alloc_def time_time_def stats_set_def Let_def truthy_def
      split: option.splits)

lemma uls_stats:
  assumes "0 < next_free w"
  shows "map_of (cells (update_latest_stats fps counts am w) 0) ''fps'' = Some (PyFloat fps)"
    and "map_of (cells (update_latest_stats fps counts am w) 0) ''counts'' = Some (PyRef (next_free w))"
    and "map_of (cells (update_latest_stats fps counts am w) 0) ''last_update_ts'' = Some (PyFloat (clock w (ticks w)))"
    and "map_of (cells (update_latest_stats fps counts am w) 0) ''alert'' =
           (if truthy am then Some (PyRef (Suc (next_free w))) else map_of (cells w 0) ''alert'')"
  using assms by (simp_all add: uls_cell0 Let_def map_of_setitem)

lemma uls_stats_other:
  assumes "0 < next_free w" "k \<noteq> ''fps''" "k \<noteq> ''counts''" "k \<noteq> ''last_update_ts''" "k \<noteq> ''alert''"
  shows "map_of (cells (update_latest_stats fps counts am w) 0) k = map_of (cells w 0) k"
  using assms by (simp add: uls_cell0 Let_def map_of_setitem)

lemma uls_new_counts:
  "0 < next_free w \<Longrightarrow> cells (update_latest_stats fps counts am w) (next_free w) = counts"
  by (simp add: update_latest_stats_def alloc_def time_time_def stats_set_def Let_def
      split: option.splits)

lemma uls_new_alert:
  "0 < next_free w \<Longrightarrow> am = Some m \<Longrightarrow> m \<noteq> [] \<Longrightarrow>
   cells (update_latest_stats fps counts am w) (Suc (next_free w)) =
     [(''message'', PyStr m), (''ts'', PyFloat (clock w (Suc (ticks w))))]"
  by (simp add: update_latest_stats_def alloc_def time_time_def stats_set_def Let_def
      split: option.splits)

lemma store_okE:
  assumes "store_ok w"
  obtains c a where "map_of (cells w 0) ''counts'' = Some (PyRef c)" "0 < c" "c < next_free w"
    "map_of (cells w 0) ''alert'' = Some (PyRef a)" "0 < a" "a < next_free w"
    "map fst (cells w a) = [''message'', ''ts'']"
  using assms unfolding store_ok_def
  by (auto split: option.splits pyval.splits)

lemma store_ok_present:
  assumes "store_ok w"
  obtains f t where "map_of (cells w 0) ''fps'' = Some f" "map_of (cells w 0) ''last_update_ts'' = Some t"
  using assms unfolding store_ok_def by auto

lemma store_okI:
  assumes "map_of (cells w 0) ''counts'' = Some (PyRef c)" "0 < c" "c < next_free w"
    "map_of (cells w 0) ''alert'' = Some (PyRef a)" "0 < a" "a < next_free w"
    "map fst (cells w a) = [''message'', ''ts'']"
    "map_of (cells w 0) ''fps'' \<noteq> None" "map_of (cells w 0) ''last_update_ts'' \<noteq> None"
  shows "store_ok w"
  using assms unfolding store_ok_def by simp

lemma store_ok_initial: "store_ok (initial_world clk)"
  by (simp add: store_ok_def initial_world_def)

lemma store_ok_update:
  assumes "store_ok w"
  shows "store_ok (update_latest_stats fps counts am w)"
proof -
  from assms obtain c a where
    ca: "map_of (cells w 0) ''alert'' = Some (PyRef a)" "0 < a" "a < next_free w"
        "map fst (cells w a) = [''message'', ''ts'']" "0 < c" "c < next_free w"
    by (rule store_okE)
  have nf: "0 < next_free w" using ca by simp
  let ?w = "update_latest_stats fps counts am w"
  show ?thesis
  proof (cases "truthy am")
    case True
    then obtain m where m: "am = Some m" "m \<noteq> []"
      by (auto simp: truthy_def split: option.splits)
    show ?thesis
      by (rule store_okI[where c = "next_free w" and a = "Suc (next_free w)"])
         (simp_all add: uls_stats[OF nf] uls_frame True uls_new_alert[OF nf m] nf)
  next
    case False
    show ?thesis
      by (rule store_okI[where c = "next_free w" and a = a])
         (simp_all add: uls_stats[OF nf] uls_frame False uls_cells_other ca nf less_SucI)
  qed
qed

lemma sa_frame:
  "clock (set_alert m w) = clock w"
  "model_calls (set_alert m w) = model_calls w"
  "stdout (set_alert m w) = stdout w"
  "ticks (set_alert m w) = Suc (ticks w)"
  "next_free (set_alert m w) = Suc (next_free w)"
  by (simp_all add: set_alert_def alloc_def time_time_def stats_set_def Let_def)

lemma sa_cells_other:
  "a \<noteq> 0 \<Longrightarrow> a < next_free w \<Longrightarrow> cells (set_alert m w) a = cells w a"
  by (simp add: set_alert_def alloc_def time_time_def stats_set_def Let_def)

lemma sa_cell0:
  "0 < next_free w \<Longrightarrow>
   cells (set_alert m w) 0 = setitem (cells w 0) ''alert'' (PyRef (next_free w))"
  by (simp add: set_alert_def alloc_def time_time_def stats_set_def Let_def)

lemma sa_new_alert:
  "0 < next_free w \<Longrightarrow>
   cells (set_alert m w) (next_free w) = [(''message'', m), (''ts'', PyFloat (clock w (ticks w)))]"
  by (simp add: set_alert_def alloc_def time_time_def stats_set_def Let_def)

lemma store_ok_set_alert:
  assumes "store_ok w"
  shows "store_ok (set_alert m w)"
proof -
  from assms obtain c a where
    ca: "map_of (cells w 0) ''counts'' = Some (PyRef c)" "0 < c" "c < next_free w"
    by (rule store_okE)
  from assms obtain f t where
    ft: "map_of (cells w 0) ''fps'' = Some f" "map_of (cells w 0) ''last_update_ts'' = Some t"
    by (rule store_ok_present)
  have nf: "0 < next_free w" using ca by simp
  show ?thesis
    by (rule store_okI[where c = c and a = "next_free w"])
       (simp_all add: sa_cell0[OF nf] sa_new_alert[OF nf] sa_frame map_of_setitem ca ft nf less_SucI)
qed

lemma gls_result:
  assumes "map_of (cells w 0) ''counts'' = Some (PyRef c0)" "c0 < next_free w"
    and "map_of (cells w 0) ''alert'' = Some (PyRef a0)" "a0 < next_free w"
  shows "get_latest_stats w =
     Inr (next_free w + 4,
          w\<lparr>cells := (cells w)
               (next_free w := [],
                next_free w + 1 := cells w c0,
                next_free w + 2 := [(''message'', PyStr []), (''ts'', PyFloat 0)],
                next_free w + 3 := cells w a0,
                next_free w + 4 :=
                  [(''fps'', dict_get (cells w 0) ''fps'' (PyFloat 0)),
                   (''counts'', PyRef (next_free w + 1)),
                   (''last_update_ts'', dict_get (cells w 0) ''last_update_ts'' (PyFloat 0)),
                   (''alert'', PyRef (next_free w + 3))]),
             next_free := next_free w + 5\<rparr>)"
  using assms
  by (simp add: get_latest_stats_def alloc_def py_dict_def dict_get_def Let_def eval_nat_numeral)

lemma gls_stable:
  assumes "get_latest_stats w = Inr (r, w')"
  shows "next_free w \<le> next_free w'"
    and "a < next_free w \<Longrightarrow> cells w' a = cells w a"
    and "clock w' = clock w" and "ticks w' = ticks w"
    and "model_calls w' = model_calls w" and "stdout w' = stdout w"
  using assms
  by (auto simp: get_latest_stats_def alloc_def py_dict_def Let_def
      split: sum.splits pyval.splits if_splits prod.splits)

lemma do_call_stable:
  shows "next_free w \<le> next_free (do_call c w)"
    and "a \<noteq> 0 \<Longrightarrow> a < next_free w \<Longrightarrow> cells (do_call c w) a = cells w a"
proof -
  show "next_free w \<le> next_free (do_call c w)"
    by (cases c) (auto simp: uls_frame sa_frame dest: gls_stable(1) split: sum.splits)
  show "a \<noteq> 0 \<Longrightarrow> a < next_free w \<Longrightarrow> cells (do_call c w) a = cells w a"
    by (cases c) (auto simp: uls_cells_other sa_cells_other dest: gls_stable(2) split: sum.splits)
qed

lemma do_calls_stable:
  "a \<noteq> 0 \<Longrightarrow> a < next_free w \<Longrightarrow> cells (do_calls cs w) a = cells w a"
proof (induction cs arbitrary: w)
  case Nil
  then show ?case by (simp add: do_calls_def)
next
  case (Cons c cs)
  have "a < next_free (do_call c w)"
    using Cons.prems(2) do_call_stable(1)[of w c] by simp
  then have "cells (do_calls cs (do_call c w)) a = cells (do_call c w) a"
    using Cons.IH Cons.prems(1) by blast
  then show ?case
    using Cons.prems by (simp add: do_calls_def do_call_stable(2))
qed

lemma store_ok_read:
  assumes "store_ok w" "get_latest_stats w = Inr (r, w')"
  shows "store_ok w'"
proof -
  from assms(1) obtain c a where
    ca: "map_of (cells w 0) ''counts'' = Some (PyRef c)" "0 < c" "c < next_free w"
        "map_of (cells w 0) ''alert'' = Some (PyRef a)" "0 < a" "a < next_free w"
        "map fst (cells w a) = [''message'', ''ts'']"
    by (rule store_okE)
  have le: "next_free w \<le> next_free w'" by (rule gls_stable(1)[OF assms(2)])
  have c0: "cells w' 0 = cells w 0" using ca by (intro gls_stable(2)[OF assms(2)]) simp
  have ca': "cells w' a = cells w a" using ca by (intro gls_stable(2)[OF assms(2)]) simp
  from assms(1) obtain f t where
    ft: "map_of (cells w 0) ''fps'' = Some f" "map_of (cells w 0) ''last_update_ts'' = Some t"
    by (rule store_ok_present)
  show ?thesis
    by (rule store_okI[where c = c and a = a]) (use ca le c0 ca' ft in simp_all)
qed

lemma store_ok_do_call: "store_ok w \<Longrightarrow> store_ok (do_call c w)"
  by (cases c) (auto simp: store_ok_update store_ok_set_alert intro: store_ok_read split: sum.splits)

lemma store_ok_do_calls: "store_ok w \<Longrightarrow> store_ok (do_calls cs w)"
  unfolding do_calls_def by (induction cs arbitrary: w) (simp_all add: store_ok_do_call)

lemma gls_snapshot:
  assumes "store_ok w"
  obtains r c a w' where
    "get_latest_stats w = Inr (r, w')"
    "next_free w \<le> c" "c < r" "next_free w \<le> a" "a < r" "r < next_free w'"
    "cells w' r = [(''fps'', dict_get (cells w 0) ''fps'' (PyFloat 0)), (''counts'', PyRef c),
        (''last_update_ts'', dict_get (cells w 0) ''last_update_ts'' (PyFloat 0)),
        (''alert'', PyRef a)]"
    "Some (cells w' c) = deref w (map_of (cells w 0) ''counts'')"
    "Some (cells w' a) = deref w (map_of (cells w 0) ''alert'')"
proof -
  from assms obtain c0 a0 where
    ca: "map_of (cells w 0) ''counts'' = Some (PyRef c0)" "0 < c0" "c0 < next_free w"
        "map_of (cells w 0) ''alert'' = Some (PyRef a0)" "0 < a0" "a0 < next_free w"
    by (rule store_okE)
  define w' where "w' = w\<lparr>cells := (cells w)
               (next_free w := [],
                next_free w + 1 := cells w c0,
                next_free w + 2 := [(''message'', PyStr []), (''ts'', PyFloat 0)],
                next_free w + 3 := cells w a0,
                next_free w + 4 :=
                  [(''fps'', dict_get (cells w 0) ''fps'' (PyFloat 0)),
                   (''counts'', PyRef (next_free w + 1)),
                   (''last_update_ts'', dict_get (cells w 0) ''last_update_ts'' (PyFloat 0)),
                   (''alert'', PyRef (next_free w + 3))]),
             next_free := next_free w + 5\<rparr>"
  have res: "get_latest_stats w = Inr (next_free w + 4, w')"
    unfolding w'_def by (rule gls_result[OF ca(1) ca(3) ca(4) ca(6)])
  have 1: "cells w' (next_free w + 4) =
      [(''fps'', dict_get (cells w 0) ''fps'' (PyFloat 0)), (''counts'', PyRef (next_free w + 1)),
        (''last_update_ts'', dict_get (cells w 0) ''last_update_ts'' (PyFloat 0)),
        (''alert'', PyRef (next_free w + 3))]"
    by (simp add: w'_def)
  have 2: "Some (cells w' (next_free w + 1)) = deref w (map_of (cells w 0) ''counts'')"
    by (simp add: w'_def deref_def ca)
  have 3: "Some (cells w' (next_free w + 3)) = deref w (map_of (cells w 0) ''alert'')"
    by (simp add: w'_def deref_def ca)
  have 4: "next_free w + 4 < next_free w'"
    by (simp add: w'_def)
  show thesis
    by (rule that[OF res _ _ _ _ 4 1 2 3]) simp_all
qed

lemma py_dict_Inr:
  assumes "py_dict x w = Inr (a, w')"
  shows "(a, w') = alloc (case x of PyRef z \<Rightarrow> cells w z | _ \<Rightarrow> []) w"
  using assms by (cases x) (auto simp: py_dict_def split: if_splits)

lemma gls_Inr:
  assumes "get_latest_stats w = Inr (r, w')"
  defines "d \<equiv> cells w stats_addr"
  defines "n \<equiv> next_free w"
  shows "r = n + 4"
    and "cells w' (n + 4) =
       [(''fps'', dict_get d ''fps'' (PyFloat 0)), (''counts'', PyRef (n + 1)),
        (''last_update_ts'', dict_get d ''last_update_ts'' (PyFloat 0)), (''alert'', PyRef (n + 3))]"
    and "map_of d ''counts'' = None \<Longrightarrow> cells w' (n + 1) = []"
    and "map_of d ''alert'' = None \<Longrightarrow>
           cells w' (n + 3) = [(''message'', PyStr []), (''ts'', PyFloat 0)]"
proof -
  define w1 where "w1 = w\<lparr>cells := (cells w)(n := []), next_free := Suc n\<rparr>"
  have a1: "alloc [] w = (n, w1)" by (simp add: w1_def n_def alloc_def)
  obtain c w2 where p1: "py_dict (dict_get d ''counts'' (PyRef n)) w1 = Inr (c, w2)"
    using assms(1) unfolding get_latest_stats_def Let_def d_def[symmetric] a1
    by (auto split: sum.splits prod.splits)
  define k1 where "k1 = (case dict_get d ''counts'' (PyRef n) of PyRef z \<Rightarrow> cells w1 z | _ \<Rightarrow> [])"
  have c: "c = Suc n" and w2: "w2 = w1\<lparr>cells := (cells w1)(Suc n := k1), next_free := Suc (Suc n)\<rparr>"
    using py_dict_Inr[OF p1] by (simp_all add: alloc_def w1_def k1_def)
  define w3 where "w3 = w2\<lparr>cells := (cells w2)(Suc (Suc n) := [(''message'', PyStr []), (''ts'', PyFloat 0)]),
      next_free := Suc (Suc (Suc n))\<rparr>"
  have a2: "alloc [(''message'', PyStr []), (''ts'', PyFloat 0)] w2 = (Suc (Suc n), w3)"
    by (simp add: w3_def alloc_def w2)
  obtain a w4 where p2: "py_dict (dict_get d ''alert'' (PyRef (Suc (Suc n)))) w3 = Inr (a, w4)"
    using assms(1) unfolding get_latest_stats_def Let_def d_def[symmetric] a1
    by (auto simp: p1 a2 split: sum.splits prod.splits)
  define k2 where "k2 = (case dict_get d ''alert'' (PyRef (Suc (Suc n))) of PyRef z \<Rightarrow> cells w3 z | _ \<Rightarrow> [])"
  have a: "a = Suc (Suc (Suc n))"
    and w4: "w4 = w3\<lparr>cells := (cells w3)(Suc (Suc (Suc n)) := k2), next_free := Suc (Suc (Suc (Suc n)))\<rparr>"
    using py_dict_Inr[OF p2] by (simp_all add: alloc_def w3_def k2_def)
  have res: "(r, w') = alloc [(''fps'', dict_get d ''fps'' (PyFloat 0)), (''counts'', PyRef c),
       (''last_update_ts'', dict_get d ''last_update_ts'' (PyFloat 0)), (''alert'', PyRef a)] w4"
    using assms(1) unfolding get_latest_stats_def Let_def d_def[symmetric] a1
    by (simp add: p1 a2 p2)
  have nf4: "next_free w4 = Suc (Suc (Suc (Suc n)))" by (simp add: w4)
  show "r = n + 4" using res by (simp add: alloc_def nf4)
  have cw': "cells w' = (cells w4)(Suc (Suc (Suc (Suc n))) :=
       [(''fps'', dict_get d ''fps'' (PyFloat 0)), (''counts'', PyRef c),
       (''last_update_ts'', dict_get d ''last_update_ts'' (PyFloat 0)), (''alert'', PyRef a)])"
    using res by (simp add: alloc_def nf4)
  show "cells w' (n + 4) =
       [(''fps'', dict_get d ''fps'' (PyFloat 0)), (''counts'', PyRef (n + 1)),
        (''last_update_ts'', dict_get d ''last_update_ts'' (PyFloat 0)), (''alert'', PyRef (n + 3))]"
    by (simp add: cw' c a eval_nat_numeral)
  show "cells w' (n + 1) = []" if "map_of d ''counts'' = None"
  proof -
    have "k1 = []" using that by (simp add: k1_def dict_get_def w1_def)
    then show ?thesis by (simp add: cw' w4 w3_def w2)
  qed
  show "cells w' (n + 3) = [(''message'', PyStr []), (''ts'', PyFloat 0)]" if "map_of d ''alert'' = None"
  proof -
    have "k2 = [(''message'', PyStr []), (''ts'', PyFloat 0)]"
      using that by (simp add: k2_def dict_get_def w3_def)
    then show ?thesis by (simp add: cw' w4 eval_nat_numeral)
  qed
qed

lemma gls_total:
  assumes "map_of (cells w stats_addr) ''counts'' = None \<or> (\<exists>x. map_of (cells w stats_addr) ''counts'' = Some (PyRef x))"
    and "map_of (cells w stats_addr) ''alert'' = None \<or> (\<exists>x. map_of (cells w stats_addr) ''alert'' = Some (PyRef x))"
  shows "\<exists>r w'. get_latest_stats w = Inr (r, w')"
  using assms
  by (auto simp: get_latest_stats_def alloc_def py_dict_def dict_get_def Let_def)

lemma snapshot_cong:
  assumes "cells w' a = cells w b"
    and "\<And>x. map_of (cells w b) ''counts'' = Some (PyRef x) \<Longrightarrow> cells w' x = cells w x"
    and "\<And>x. map_of (cells w b) ''alert'' = Some (PyRef x) \<Longrightarrow> cells w' x = cells w x"
  shows "snapshot w' a = snapshot w b"
  using assms by (auto simp: snapshot_def deref_def split: option.splits pyval.splits)

subsection \<open>Claims about the store\<close>

text \<open>
  Claim C6. Every call of \<^verbatim>\<open>_update_latest_stats\<close> in a state where the statistics
  dictionary exists stores \<open>fps\<close>, stores under \<^verbatim>\<open>counts\<close> a newly allocated dictionary
  with the items of the argument, and stores under \<^verbatim>\<open>last_update_ts\<close> the clock value read
  during the call. When \<open>alert_message\<close> is a non-empty string, \<^verbatim>\<open>alert\<close> becomes a
  new dictionary with that message and the next clock value; when it is \<^verbatim>\<open>None\<close> or the
  empty string, the \<^verbatim>\<open>alert\<close> entry is the one it was. Every other existing
  dictionary, and every other key of the statistics dictionary, is left as it was.
\<close>

theorem C6_update_replaces_fields:
  assumes "0 < next_free w"
  shows "let w' = update_latest_stats fps counts alert_message w in
     map_of (cells w' stats_addr) ''fps'' = Some (PyFloat fps) \<and>
     map_of (cells w' stats_addr) ''counts'' = Some (PyRef (next_free w)) \<and>
     cells w' (next_free w) = counts \<and>
     map_of (cells w' stats_addr) ''last_update_ts'' = Some (PyFloat (clock w (ticks w))) \<and>
     (\<forall>m. alert_message = Some m \<and> m \<noteq> [] \<longrightarrow>
        map_of (cells w' stats_addr) ''alert'' = Some (PyRef (Suc (next_free w))) \<and>
        cells w' (Suc (next_free w)) =
          [(''message'', PyStr m), (''ts'', PyFloat (clock w (Suc (ticks w))))]) \<and>
     (alert_message = None \<or> alert_message = Some [] \<longrightarrow>
        map_of (cells w' stats_addr) ''alert'' = map_of (cells w stats_addr) ''alert'') \<and>
     (\<forall>a. a \<noteq> stats_addr \<and> a < next_free w \<longrightarrow> cells w' a = cells w a) \<and>
     (\<forall>k. k \<notin> {''fps'', ''counts'', ''last_update_ts'', ''alert''} \<longrightarrow>
        map_of (cells w' stats_addr) k = map_of (cells w stats_addr) k)"
proof -
  have t: "truthy alert_message \<longleftrightarrow> (\<exists>m. alert_message = Some m \<and> m \<noteq> [])"
    by (cases alert_message) (simp_all add: truthy_def)
  have f: "alert_message = None \<or> alert_message = Some [] \<Longrightarrow> \<not> truthy alert_message"
    by (auto simp: truthy_def)
  show ?thesis
    unfolding Let_def
    by (intro conjI allI impI)
       (use assms t f in \<open>simp_all add: uls_stats uls_new_counts uls_new_alert uls_cells_other
          uls_stats_other\<close>)
qed

theorem C6_update_replaces_fields_witness:
  "0 < next_free (initial_world (\<lambda>n. 100 + real n)) \<and>
   (let w1 = update_latest_stats 12.5 [(''person'', PyInt 2)] (Some ''2 person detected'')
               (initial_world (\<lambda>n. 100 + real n));
        w2 = update_latest_stats 14 [] None w1
    in snapshot w1 stats_addr =
         (Some (PyFloat 12.5), Some [(''person'', PyInt 2)], Some (PyFloat 100),
          Some [(''message'', PyStr ''2 person detected''), (''ts'', PyFloat 101)]) \<and>
       map_of (cells w2 stats_addr) ''alert'' = map_of (cells w1 stats_addr) ''alert'')"
proof -
  let ?w0 = "initial_world (\<lambda>n. 100 + real n)"
  let ?w1 = "update_latest_stats 12.5 [(''person'', PyInt 2)] (Some ''2 person detected'') ?w0"
  have h0: "0 < next_free ?w0" by (simp add: initial_world_def)
  have h1: "0 < next_free ?w1" by (simp add: uls_frame h0)
  have n0: "next_free ?w0 = 3" "ticks ?w0 = 0" "clock ?w0 = (\<lambda>n. 100 + real n)"
    by (simp_all add: initial_world_def)
  show ?thesis
    using h0 C6_update_replaces_fields[OF h0, of "12.5" "[(''person'', PyInt 2)]" "Some ''2 person detected''"]
      C6_update_replaces_fields[OF h1, of 14 "[]" None]
    by (simp add: Let_def snapshot_def deref_def n0)
qed

text \<open>
  Claim C7. In a well-formed state \<^verbatim>\<open>get_latest_stats\<close> returns a new dictionary whose
  snapshot equals the store's. The call changes no existing dictionary and reads no clock.
  Whatever calls of the store's operations follow, the snapshot held by the returned dictionary
  stays the same; and whatever is written into the returned dictionary, its \<^verbatim>\<open>counts\<close>
  dictionary or its \<^verbatim>\<open>alert\<close> dictionary, the statistics dictionary and its snapshot stay
  the same.
\<close>

theorem C7_read_returns_isolated_copy:
  assumes "store_ok w"
  shows "\<exists>r c a w'.
     get_latest_stats w = Inr (r, w') \<and>
     map_of (cells w' r) ''counts'' = Some (PyRef c) \<and>
     map_of (cells w' r) ''alert'' = Some (PyRef a) \<and>
     snapshot w' r = snapshot w stats_addr \<and>
     (\<forall>x. x < next_free w \<longrightarrow> cells w' x = cells w x) \<and>
     snapshot w' stats_addr = snapshot w stats_addr \<and>
     clock w' = clock w \<and> ticks w' = ticks w \<and>
     (\<forall>cs. snapshot (do_calls cs w') r = snapshot w' r) \<and>
     (\<forall>d1 d2 d3.
        cells (w'\<lparr>cells := (cells w')(r := d1, c := d2, a := d3)\<rparr>) stats_addr = cells w' stats_addr \<and>
        snapshot (w'\<lparr>cells := (cells w')(r := d1, c := d2, a := d3)\<rparr>) stats_addr =
          snapshot w' stats_addr)"
proof -
  from assms obtain c0 a0 where
    ca: "map_of (cells w 0) ''counts'' = Some (PyRef c0)" "0 < c0" "c0 < next_free w"
        "map_of (cells w 0) ''alert'' = Some (PyRef a0)" "0 < a0" "a0 < next_free w"
    by (rule store_okE)
  from assms obtain f t where
    ft: "map_of (cells w 0) ''fps'' = Some f" "map_of (cells w 0) ''last_update_ts'' = Some t"
    by (rule store_ok_present)
  from assms obtain r c a w' where
    res: "get_latest_stats w = Inr (r, w')"
    and ord: "next_free w \<le> c" "c < r" "next_free w \<le> a" "a < r" "r < next_free w'"
    and top: "cells w' r = [(''fps'', dict_get (cells w 0) ''fps'' (PyFloat 0)), (''counts'', PyRef c),
        (''last_update_ts'', dict_get (cells w 0) ''last_update_ts'' (PyFloat 0)),
        (''alert'', PyRef a)]"
    and sub: "Some (cells w' c) = deref w (map_of (cells w 0) ''counts'')"
        "Some (cells w' a) = deref w (map_of (cells w 0) ''alert'')"
    by (rule gls_snapshot)
  have old: "cells w' x = cells w x" if "x < next_free w" for x
    using that by (rule gls_stable(2)[OF res])
  have rc: "map_of (cells w' r) ''counts'' = Some (PyRef c)"
    and ra: "map_of (cells w' r) ''alert'' = Some (PyRef a)"
    by (simp_all add: top)
  have copy: "snapshot w' r = snapshot w 0"
    using sub by (simp add: snapshot_def top deref_def ca ft dict_get_def)
  have same: "snapshot w' 0 = snapshot w 0"
    by (rule snapshot_cong) (use ca old in auto)
  have later: "snapshot (do_calls cs w') r = snapshot w' r" for cs
  proof (rule snapshot_cong)
    show "cells (do_calls cs w') r = cells w' r"
      using ord ca by (intro do_calls_stable) auto
    show "cells (do_calls cs w') x = cells w' x" if "map_of (cells w' r) ''counts'' = Some (PyRef x)" for x
      using that rc ord ca by (intro do_calls_stable) auto
    show "cells (do_calls cs w') x = cells w' x" if "map_of (cells w' r) ''alert'' = Some (PyRef x)" for x
      using that ra ord ca by (intro do_calls_stable) auto
  qed
  have c0': "cells w' 0 = cells w 0" using ca by (intro old) simp
  have poke: "cells (w'\<lparr>cells := (cells w')(r := d1, c := d2, a := d3)\<rparr>) 0 = cells w' 0 \<and>
        snapshot (w'\<lparr>cells := (cells w')(r := d1, c := d2, a := d3)\<rparr>) 0 = snapshot w' 0"
    for d1 d2 d3
  proof
    let ?wm = "w'\<lparr>cells := (cells w')(r := d1, c := d2, a := d3)\<rparr>"
    show z: "cells ?wm 0 = cells w' 0" using ord ca by auto
    show "snapshot ?wm 0 = snapshot w' 0"
    proof (rule snapshot_cong[OF z])
      show "cells ?wm x = cells w' x" if "map_of (cells w' 0) ''counts'' = Some (PyRef x)" for x
        using that ord ca c0' by auto
      show "cells ?wm x = cells w' x" if "map_of (cells w' 0) ''alert'' = Some (PyRef x)" for x
        using that ord ca c0' by auto
    qed
  qed
  show ?thesis
    using res rc ra copy old same later poke gls_stable(3,4)[OF res] by blast
qed


theorem C7_read_returns_isolated_copy_witness:
  "store_ok (initial_world (\<lambda>n. real n)) \<and>
   (\<exists>r w'. get_latest_stats (initial_world (\<lambda>n. real n)) = Inr (r, w') \<and>
      snapshot w' r =
        (Some (PyFloat 0), Some [], Some (PyFloat 0),
         Some [(''message'', PyStr []), (''ts'', PyFloat 0)]) \<and>
      snapshot (do_calls [Update 15 [(''car'', PyInt 1)] (Some ''1 car detected'')] w') r =
        snapshot w' r)"
proof -
  have s: "snapshot (initial_world (\<lambda>n. real n)) stats_addr =
        (Some (PyFloat 0), Some [], Some (PyFloat 0),
         Some [(''message'', PyStr []), (''ts'', PyFloat 0)])"
    by (simp add: snapshot_def initial_world_def deref_def)
  have ok: "store_ok (initial_world (\<lambda>n. real n))"
    by (simp add: store_ok_def initial_world_def)
  from C7_read_returns_isolated_copy[OF ok] obtain r w' where
    "get_latest_stats (initial_world (\<lambda>n. real n)) = Inr (r, w')"
    "snapshot w' r = snapshot (initial_world (\<lambda>n. real n)) stats_addr"
    "\<forall>cs. snapshot (do_calls cs w') r = snapshot w' r"
    by blast
  then show ?thesis using ok s by auto
qed

text \<open>
  Claim C10. Every state that calls of the store's operations produce from the initial state
  is well-formed, and in every well-formed state \<^verbatim>\<open>get_latest_stats\<close> returns a dictionary
  with exactly the keys \<^verbatim>\<open>fps\<close>, \<^verbatim>\<open>counts\<close>, \<^verbatim>\<open>last_update_ts\<close>, \<^verbatim>\<open>alert\<close>, whose
  \<^verbatim>\<open>alert\<close> has exactly the keys \<^verbatim>\<open>message\<close> and \<^verbatim>\<open>ts\<close>. In the initial state the
  result holds the zero values. In any state where \<^verbatim>\<open>counts\<close> and \<^verbatim>\<open>alert\<close> are absent or
  dictionaries, the call returns, and each absent field has its default in the result.
\<close>

theorem C10_read_total_and_shaped:
  "(\<forall>cs clk. store_ok (do_calls cs (initial_world clk))) \<and>
   (\<forall>w. store_ok w \<longrightarrow>
      (\<exists>r c a w'. get_latest_stats w = Inr (r, w') \<and>
         map fst (cells w' r) = [''fps'', ''counts'', ''last_update_ts'', ''alert''] \<and>
         map_of (cells w' r) ''counts'' = Some (PyRef c) \<and>
         map_of (cells w' r) ''alert'' = Some (PyRef a) \<and>
         map fst (cells w' a) = [''message'', ''ts''])) \<and>
   (\<forall>clk. \<exists>r w'. get_latest_stats (initial_world clk) = Inr (r, w') \<and>
      snapshot w' r =
        (Some (PyFloat 0), Some [], Some (PyFloat 0),
         Some [(''message'', PyStr []), (''ts'', PyFloat 0)])) \<and>
   (\<forall>w. (map_of (cells w stats_addr) ''counts'' = None \<or>
          (\<exists>x. map_of (cells w stats_addr) ''counts'' = Some (PyRef x))) \<and>
         (map_of (cells w stats_addr) ''alert'' = None \<or>
          (\<exists>x. map_of (cells w stats_addr) ''alert'' = Some (PyRef x))) \<longrightarrow>
      (\<exists>r w'. get_latest_stats w = Inr (r, w') \<and>
         map fst (cells w' r) = [''fps'', ''counts'', ''last_update_ts'', ''alert''] \<and>
         (map_of (cells w stats_addr) ''fps'' = None \<longrightarrow>
            map_of (cells w' r) ''fps'' = Some (PyFloat 0)) \<and>
         (map_of (cells w stats_addr) ''counts'' = None \<longrightarrow>
            deref w' (map_of (cells w' r) ''counts'') = Some []) \<and>
         (map_of (cells w stats_addr) ''last_update_ts'' = None \<longrightarrow>
            map_of (cells w' r) ''last_update_ts'' = Some (PyFloat 0)) \<and>
         (map_of (cells w stats_addr) ''alert'' = None \<longrightarrow>
            deref w' (map_of (cells w' r) ''alert'') =
              Some [(''message'', PyStr []), (''ts'', PyFloat 0)])))"
proof (intro conjI allI impI)
  fix cs clk
  show "store_ok (do_calls cs (initial_world clk))"
    by (rule store_ok_do_calls[OF store_ok_initial])
next
  fix w :: world assume ok: "store_ok w"
  from ok obtain c0 a0 where
    ca: "map_of (cells w 0) ''alert'' = Some (PyRef a0)" "0 < a0" "a0 < next_free w"
        "map fst (cells w a0) = [''message'', ''ts'']"
    by (rule store_okE)
  from ok obtain r c a w' where
    res: "get_latest_stats w = Inr (r, w')"
    and top: "cells w' r = [(''fps'', dict_get (cells w 0) ''fps'' (PyFloat 0)), (''counts'', PyRef c),
        (''last_update_ts'', dict_get (cells w 0) ''last_update_ts'' (PyFloat 0)),
        (''alert'', PyRef a)]"
    and sub: "Some (cells w' a) = deref w (map_of (cells w 0) ''alert'')"
    by (rule gls_snapshot)
  have "cells w' a = cells w a0" using sub by (simp add: deref_def ca)
  then have "map fst (cells w' a) = [''message'', ''ts'']" using ca by simp
  then show "\<exists>r c a w'. get_latest_stats w = Inr (r, w') \<and>
         map fst (cells w' r) = [''fps'', ''counts'', ''last_update_ts'', ''alert''] \<and>
         map_of (cells w' r) ''counts'' = Some (PyRef c) \<and>
         map_of (cells w' r) ''alert'' = Some (PyRef a) \<and>
         map fst (cells w' a) = [''message'', ''ts'']"
    using res top by (intro exI[of _ r] exI[of _ c] exI[of _ a] exI[of _ w']) simp
next
  fix clk
  have s: "snapshot (initial_world clk) stats_addr =
        (Some (PyFloat 0), Some [], Some (PyFloat 0),
         Some [(''message'', PyStr []), (''ts'', PyFloat 0)])"
    by (simp add: snapshot_def initial_world_def deref_def)
  from store_ok_initial[of clk] obtain c0 a0 where
    ca: "map_of (cells (initial_world clk) 0) ''counts'' = Some (PyRef c0)"
        "map_of (cells (initial_world clk) 0) ''alert'' = Some (PyRef a0)"
    by (rule store_okE)
  from store_ok_initial[of clk] obtain f t where
    ft: "map_of (cells (initial_world clk) 0) ''fps'' = Some f"
        "map_of (cells (initial_world clk) 0) ''last_update_ts'' = Some t"
    by (rule store_ok_present)
  from store_ok_initial[of clk] obtain r c a w' where
    res: "get_latest_stats (initial_world clk) = Inr (r, w')"
    and top: "cells w' r = [(''fps'', dict_get (cells (initial_world clk) 0) ''fps'' (PyFloat 0)),
        (''counts'', PyRef c),
        (''last_update_ts'', dict_get (cells (initial_world clk) 0) ''last_update_ts'' (PyFloat 0)),
        (''alert'', PyRef a)]"
    and sub: "Some (cells w' c) = deref (initial_world clk) (map_of (cells (initial_world clk) 0) ''counts'')"
       "Some (cells w' a) = deref (initial_world clk) (map_of (cells (initial_world clk) 0) ''alert'')"
    by (rule gls_snapshot)
  have "snapshot w' r = snapshot (initial_world clk) stats_addr"
    using sub by (simp add: snapshot_def top deref_def ca ft dict_get_def)
  then show "\<exists>r w'. get_latest_stats (initial_world clk) = Inr (r, w') \<and>
      snapshot w' r =
        (Some (PyFloat 0), Some [], Some (PyFloat 0),
         Some [(''message'', PyStr []), (''ts'', PyFloat 0)])"
    using res s by auto
next
  fix w :: world
  assume a: "(map_of (cells w stats_addr) ''counts'' = None \<or>
          (\<exists>x. map_of (cells w stats_addr) ''counts'' = Some (PyRef x))) \<and>
         (map_of (cells w stats_addr) ''alert'' = None \<or>
          (\<exists>x. map_of (cells w stats_addr) ''alert'' = Some (PyRef x)))"
  then obtain r w' where res: "get_latest_stats w = Inr (r, w')"
    using gls_total[of w] by blast
  show "\<exists>r w'. get_latest_stats w = Inr (r, w') \<and>
         map fst (cells w' r) = [''fps'', ''counts'', ''last_update_ts'', ''alert''] \<and>
         (map_of (cells w stats_addr) ''fps'' = None \<longrightarrow>
            map_of (cells w' r) ''fps'' = Some (PyFloat 0)) \<and>
         (map_of (cells w stats_addr) ''counts'' = None \<longrightarrow>
            deref w' (map_of (cells w' r) ''counts'') = Some []) \<and>
         (map_of (cells w stats_addr) ''last_update_ts'' = None \<longrightarrow>
            map_of (cells w' r) ''last_update_ts'' = Some (PyFloat 0)) \<and>
         (map_of (cells w stats_addr) ''alert'' = None \<longrightarrow>
            deref w' (map_of (cells w' r) ''alert'') =
              Some [(''message'', PyStr []), (''ts'', PyFloat 0)])"
  proof (intro exI[of _ r] exI[of _ w'] conjI impI)
    note g = gls_Inr[OF res]
    show "get_latest_stats w = Inr (r, w')" by (rule res)
    show "map fst (cells w' r) = [''fps'', ''counts'', ''last_update_ts'', ''alert'']"
      by (simp add: g(1) g(2))
    show "map_of (cells w' r) ''fps'' = Some (PyFloat 0)" if "map_of (cells w stats_addr) ''fps'' = None"
      using that by (simp add: g(1) g(2) dict_get_def)
    show "map_of (cells w' r) ''last_update_ts'' = Some (PyFloat 0)"
      if "map_of (cells w stats_addr) ''last_update_ts'' = None"
      using that by (simp add: g(1) g(2) dict_get_def)
    show "deref w' (map_of (cells w' r) ''counts'') = Some []"
      if "map_of (cells w stats_addr) ''counts'' = None"
      using g(3)[OF that] by (simp add: g(1) g(2) deref_def)
    show "deref w' (map_of (cells w' r) ''alert'') = Some [(''message'', PyStr []), (''ts'', PyFloat 0)]"
      if "map_of (cells w stats_addr) ''alert'' = None"
      using g(4)[OF that] by (simp add: g(1) g(2) deref_def)
  qed
qed

theorem C10_read_total_and_shaped_witness:
  "store_ok (do_calls [Update 15 [(''car'', PyInt 1)] (Some ''1 car detected''), Read, SetAlert PyNone]
              (initial_world (\<lambda>n. real n))) \<and>
   (\<exists>r w'. get_latest_stats (initial_world (\<lambda>n. real n)\<lparr>cells := (\<lambda>_. [])\<rparr>) = Inr (r, w') \<and>
      map_of (cells w' r) ''fps'' = Some (PyFloat 0) \<and>
      deref w' (map_of (cells w' r) ''alert'') = Some [(''message'', PyStr []), (''ts'', PyFloat 0)])"
proof -
  let ?w = "initial_world (\<lambda>n. real n)\<lparr>cells := (\<lambda>_. [])\<rparr>"
  have h: "(map_of (cells ?w stats_addr) ''counts'' = None \<or>
          (\<exists>x. map_of (cells ?w stats_addr) ''counts'' = Some (PyRef x))) \<and>
         (map_of (cells ?w stats_addr) ''alert'' = None \<or>
          (\<exists>x. map_of (cells ?w stats_addr) ''alert'' = Some (PyRef x)))"
    by simp
  have e: "map_of (cells ?w stats_addr) ''fps'' = None" "map_of (cells ?w stats_addr) ''alert'' = None"
    by simp_all
  show ?thesis
    using C10_read_total_and_shaped h e by blast
qed

section \<open>Properties of the frame generator\<close>

lemma dict_get_map_of: "dict_get d k dflt = (case map_of d k of None \<Rightarrow> dflt | Some v \<Rightarrow> v)"
  by (simp add: dict_get_def)

lemma fst_set_setitem: "fst ` set (setitem d k v) = insert k (fst ` set d)"
  by (induction d) auto

lemma setitem_nonempty: "setitem d k v \<noteq> []"
  by (cases d) auto

subsection \<open>Counting\<close>

lemma count_box_list_keys:
  "count_box_list model bs c = Inr c' \<Longrightarrow> fst ` set c \<subseteq> set allowed_classes \<Longrightarrow>
   fst ` set c' \<subseteq> set allowed_classes"
proof (induction bs arbitrary: c)
  case Nil
  then show ?case by simp
next
  case (Cons b bs)
  show ?case
  proof (cases "names model (cls b)")
    case None
    with Cons.prems show ?thesis by (simp add: is_allowed_class_def)
  next
    case (Some n)
    show ?thesis
    proof (cases "n \<in> set allowed_classes")
      case True
      with Cons.prems Some
      have "count_box_list model bs (setitem c n (dict_get c n 0 + 1)) = Inr c'"
        by (simp add: is_allowed_class_def)
      moreover have "fst ` set (setitem c n (dict_get c n 0 + 1)) \<subseteq> set allowed_classes"
        using True Cons.prems(2) by (simp add: fst_set_setitem)
      ultimately show ?thesis by (rule Cons.IH)
    next
      case False
      with Cons.prems Some have "count_box_list model bs c = Inr c'"
        by (simp add: is_allowed_class_def)
      then show ?thesis using Cons.prems(2) by (rule Cons.IH)
    qed
  qed
qed

lemma count_results_keys:
  "count_results model rs c = Inr c' \<Longrightarrow> fst ` set c \<subseteq> set allowed_classes \<Longrightarrow>
   fst ` set c' \<subseteq> set allowed_classes"
proof (induction rs arbitrary: c)
  case Nil
  then show ?case by simp
next
  case (Cons r rs)
  from Cons.prems(1) obtain c1 where
    1: "count_box_list model (boxes r) c = Inr c1" and 2: "count_results model rs c1 = Inr c'"
    by (auto split: sum.splits)
  from count_box_list_keys[OF 1 Cons.prems(2)] 2 show ?case by (rule Cons.IH[rotated])
qed

lemma set_setitem_subset: "set (setitem d k v) \<subseteq> insert (k, v) (set d)"
  by (induction d) auto

lemma counts_wf_bump:
  assumes "counts_wf c"
  shows "counts_wf (setitem c n (dict_get c n 0 + 1))"
proof -
  have "0 \<le> dict_get c n 0"
  proof (cases "map_of c n")
    case None
    then show ?thesis by (simp add: dict_get_def)
  next
    case (Some v)
    then have "(n, v) \<in> set c" by (rule map_of_SomeD)
    then have "1 \<le> v" using assms by (auto simp: counts_wf_def)
    then show ?thesis using Some by (simp add: dict_get_def)
  qed
  then have "\<forall>p \<in> set (setitem c n (dict_get c n 0 + 1)). 1 \<le> snd p"
    using assms set_setitem_subset[of c n "dict_get c n 0 + 1"]
    by (auto simp: counts_wf_def)
  then show ?thesis
    using assms by (simp add: counts_wf_def distinct_setitem)
qed

lemma count_box_list_wf:
  "count_box_list model bs c = Inr c' \<Longrightarrow> counts_wf c \<Longrightarrow> counts_wf c'"
proof (induction bs arbitrary: c)
  case Nil
  then show ?case by simp
next
  case (Cons b bs)
  show ?case
  proof (cases "names model (cls b)")
    case None
    with Cons.prems show ?thesis by (simp add: is_allowed_class_def)
  next
    case (Some n)
    show ?thesis
    proof (cases "n \<in> set allowed_classes")
      case True
      with Cons.prems Some
      have "count_box_list model bs (setitem c n (dict_get c n 0 + 1)) = Inr c'"
        by (simp add: is_allowed_class_def)
      then show ?thesis using counts_wf_bump[OF Cons.prems(2)] by (rule Cons.IH)
    next
      case False
      with Cons.prems Some have "count_box_list model bs c = Inr c'"
        by (simp add: is_allowed_class_def)
      then show ?thesis using Cons.prems(2) by (rule Cons.IH)
    qed
  qed
qed

lemma count_results_wf:
  "count_results model rs c = Inr c' \<Longrightarrow> counts_wf c \<Longrightarrow> counts_wf c'"
proof (induction rs arbitrary: c)
  case Nil
  then show ?case by simp
next
  case (Cons r rs)
  from Cons.prems(1) obtain c1 where
    1: "count_box_list model (boxes r) c = Inr c1" and 2: "count_results model rs c1 = Inr c'"
    by (auto split: sum.splits)
  from 2 count_box_list_wf[OF 1 Cons.prems(2)] show ?case by (rule Cons.IH)
qed

lemma count_box_list_total:
  "\<forall>b \<in> set bs. names model (cls b) \<noteq> None \<Longrightarrow> \<exists>c'. count_box_list model bs c = Inr c'"
  by (induction bs arbitrary: c) (auto simp: is_allowed_class_def)

lemma count_results_total:
  "results_named model rs \<Longrightarrow> \<exists>c'. count_results model rs c = Inr c'"
proof (induction rs arbitrary: c)
  case Nil
  then show ?case by simp
next
  case (Cons r rs)
  then have "\<forall>b \<in> set (boxes r). names model (cls b) \<noteq> None" and rest: "results_named model rs"
    by (simp_all add: results_named_def)
  then obtain c1 where 1: "count_box_list model (boxes r) c = Inr c1"
    using count_box_list_total by blast
  from Cons.IH[OF rest, of c1] 1 show ?case by simp
qed

lemma count_box_list_named:
  "count_box_list model bs c = Inr c' \<Longrightarrow> b \<in> set bs \<Longrightarrow> names model (cls b) \<noteq> None"
  by (induction bs arbitrary: c) (auto simp: is_allowed_class_def split: option.splits if_splits)

lemma count_results_named:
  "count_results model rs c = Inr c' \<Longrightarrow> results_named model rs"
proof (induction rs arbitrary: c)
  case Nil
  then show ?case by (simp add: results_named_def)
next
  case (Cons r rs)
  from Cons.prems(1) obtain c1 where
    1: "count_box_list model (boxes r) c = Inr c1" and 2: "count_results model rs c1 = Inr c'"
    by (auto split: sum.splits)
  from Cons.IH[OF 2] count_box_list_named[OF 1] show ?case
    by (auto simp: results_named_def)
qed

subsection \<open>Drawing\<close>

lemma draw_box_list_total:
  "\<forall>b \<in> set bs. names model (cls b) \<noteq> None \<Longrightarrow> \<exists>fr'. draw_box_list fr bs model = Inr fr'"
  by (induction bs arbitrary: fr) (auto simp: is_allowed_class_def split: prod.splits)

lemma draw_boxes_total:
  "results_named model rs \<Longrightarrow> \<exists>fr'. draw_boxes fr rs model = Inr fr'"
proof (induction rs arbitrary: fr)
  case Nil
  then show ?case by simp
next
  case (Cons r rs)
  then have "\<forall>b \<in> set (boxes r). names model (cls b) \<noteq> None" and rest: "results_named model rs"
    by (simp_all add: results_named_def)
  then obtain f1 where 1: "draw_box_list fr (boxes r) model = Inr f1"
    using draw_box_list_total by blast
  from Cons.IH[OF rest, of f1] 1 show ?case by simp
qed

lemma draw_box_list_size:
  "draw_box_list fr bs model = Inr fr' \<Longrightarrow> rows fr' = rows fr \<and> cols fr' = cols fr"
proof (induction bs arbitrary: fr)
  case Nil
  then show ?case by simp
next
  case (Cons b bs)
  from Cons.prems obtain cls_name allowed where
    n: "names model (cls b) = Some cls_name" and a: "is_allowed_class model (cls b) = Inr allowed"
    by (auto split: option.splits sum.splits)
  show ?case
  proof (cases allowed)
    case False
    with Cons.prems n a have "draw_box_list fr bs model = Inr fr'" by simp
    then show ?thesis by (rule Cons.IH)
  next
    case True
    obtain x1 y1 x2 y2 where x: "xyxy b = (x1, y1, x2, y2)" by (cases "xyxy b")
    let ?fr = "fr\<lparr>drawn := drawn fr @
        [Rectangle x1 y1 x2 y2, PutText cls_name (conf b) x1 (y1 - 10)]\<rparr>"
    from Cons.prems n a True x have "draw_box_list ?fr bs model = Inr fr'" by simp
    from Cons.IH[OF this] show ?thesis by simp
  qed
qed

lemma draw_boxes_size:
  "draw_boxes fr rs model = Inr fr' \<Longrightarrow> rows fr' = rows fr \<and> cols fr' = cols fr"
proof (induction rs arbitrary: fr)
  case Nil
  then show ?case by simp
next
  case (Cons r rs)
  from Cons.prems obtain f1 where
    1: "draw_box_list fr (boxes r) model = Inr f1" and 2: "draw_boxes f1 rs model = Inr fr'"
    by (auto split: sum.splits)
  from Cons.IH[OF 2] draw_box_list_size[OF 1] show ?case by simp
qed

subsection \<open>Resizing\<close>

lemma overlay_resize_ok:
  assumes "overlay model fr rs = Inr fr'"
  shows "resize_ok fr' scale = resize_ok fr scale"
proof -
  have "rows fr' = rows fr \<and> cols fr' = cols fr"
  proof (cases rs)
    case None
    with assms show ?thesis by (simp add: overlay_def)
  next
    case (Some r)
    with assms have "draw_boxes fr r model = Inr fr'" by (simp add: overlay_def)
    then show ?thesis by (rule draw_boxes_size)
  qed
  then show ?thesis by (simp add: resize_ok_def)
qed

lemma status_sent_started [simp]:
  "status_sent fr scale \<noteq> Created" "Created \<noteq> status_sent fr scale"
  by (simp_all add: status_sent_def)

lemma sent_ok:
  "resize_ok fr scale \<Longrightarrow> sent fr scale = Yielded \<lparr>encoded = fr, scaled_by = scale\<rparr>"
  "resize_ok fr scale \<Longrightarrow> status_sent fr scale = Suspended"
  by (simp_all add: sent_def status_sent_def)


lemma source_okD:
  assumes "source_ok model source scale"
  shows "source_named model source"
    and "fr \<in> set source \<Longrightarrow> resize_ok fr scale"
    and "k < length source \<Longrightarrow> overlay model (source ! k) rs = Inr fr' \<Longrightarrow> resize_ok fr' scale"
proof -
  from assms show "source_named model source" by (simp add: source_ok_def)
  from assms show "resize_ok fr scale" if "fr \<in> set source"
    using that by (simp add: source_ok_def source_resizable_def)
  show "resize_ok fr' scale" if "k < length source" "overlay model (source ! k) rs = Inr fr'"
  proof -
    from that(1) have "source ! k \<in> set source" by simp
    with assms have "resize_ok (source ! k) scale"
      by (simp add: source_ok_def source_resizable_def)
    then show ?thesis by (simp add: overlay_resize_ok[OF that(2)])
  qed
qed

subsection \<open>The plurality item\<close>

lemma max_from_props:
  "max_from best xs \<in> set (best # xs) \<and> (\<forall>p \<in> set (best # xs). snd p \<le> snd (max_from best xs))"
proof (induction xs arbitrary: best)
  case Nil
  then show ?case by simp
next
  case (Cons x xs)
  let ?b = "if snd best < snd x then x else best"
  from Cons.IH[of ?b] show ?case by (auto split: if_splits)
qed

lemma max_from_first:
  "\<exists>pre post. best # xs = pre @ max_from best xs # post \<and>
     (\<forall>p \<in> set pre. snd p < snd (max_from best xs)) \<and>
     (\<forall>p \<in> set post. snd p \<le> snd (max_from best xs))"
proof (induction xs arbitrary: best)
  case Nil
  have "[best] = [] @ best # []" by simp
  then show ?case by (metis empty_iff empty_set max_from.simps(1))
next
  case (Cons x xs)
  let ?b = "if snd best < snd x then x else best"
  let ?m = "max_from ?b xs"
  have m: "max_from best (x # xs) = ?m" by simp
  from Cons.IH[of ?b] obtain pre post where
    dec: "?b # xs = pre @ ?m # post"
    and lt: "\<forall>p \<in> set pre. snd p < snd ?m"
    and le: "\<forall>p \<in> set post. snd p \<le> snd ?m"
    by blast
  have ge: "snd ?b \<le> snd ?m" using max_from_props[of ?b xs] by simp
  show ?case
  proof (cases "snd best < snd x")
    case True
    then have "best # x # xs = (best # pre) @ ?m # post" using dec by simp
    moreover have "\<forall>p \<in> set (best # pre). snd p < snd ?m" using lt ge True by auto
    ultimately show ?thesis unfolding m using le by blast
  next
    case False
    show ?thesis
    proof (cases pre)
      case Nil
      with dec False have mb: "?m = best" and px: "post = xs" by auto
      then have "best # x # xs = [] @ ?m # (x # xs)" by simp
      moreover have "\<forall>p \<in> set (x # xs). snd p \<le> snd ?m"
        using le False mb px by auto
      ultimately show ?thesis unfolding m by (metis empty_iff empty_set)
    next
      case (Cons p pre')
      with dec False have p: "p = best" and xs: "xs = pre' @ ?m # post" by auto
      have "snd best < snd ?m" using lt Cons p by simp
      then have "\<forall>q \<in> set (best # x # pre'). snd q < snd ?m" using lt Cons False by auto
      moreover have "best # x # xs = (best # x # pre') @ ?m # post" using xs by simp
      ultimately show ?thesis unfolding m using le by blast
    qed
  qed
qed

lemma py_max_items_ok:
  assumes "counts \<noteq> []" "distinct (map fst counts)"
  obtains item where "py_max_items counts = Inr item" "item \<in> set counts"
    "map_of counts (fst item) = Some (snd item)"
proof -
  from assms(1) obtain x xs where c: "counts = x # xs" by (cases counts) auto
  have 1: "py_max_items counts = Inr (max_from x xs)" by (simp add: c py_max_items_def)
  have 2: "max_from x xs \<in> set counts" using max_from_props[of x xs] c by simp
  have 3: "map_of counts (fst (max_from x xs)) = Some (snd (max_from x xs))"
    using 2 assms(2) by (metis map_of_eq_Some_iff prod.collapse)
  show thesis by (rule that[OF 1 2 3])
qed

lemma alert_text_nonempty: "alert_text n c \<noteq> []"
  by (simp add: alert_text_def)

lemma truthy_alert_text: "truthy (Some (alert_text n c))"
  by (simp add: truthy_def alert_text_nonempty)

lemma alert_policy_empty: "alert_policy [] st w = (Inr (None, st), w)"
  by (simp add: alert_policy_def)

lemma alert_policy_nonempty:
  assumes "py_max_items counts = Inr item" "map_of counts (fst item) = Some (snd item)"
    and "counts \<noteq> []"
  shows "alert_policy counts st w =
    (Inr (if clock w (ticks w) - last_alert_time st > 3
          then (Some (alert_text (snd item) (fst item)), st\<lparr>last_alert_time := clock w (ticks w)\<rparr>)
          else (None, st)),
     w\<lparr>ticks := Suc (ticks w), stdout := stdout w @ [detected_text (snd item) (fst item)]\<rparr>)"
  using assms
  by (simp add: alert_policy_def time_time_def print_line_def Let_def alert_cooldown_def
      alert_text_nonempty truthy_def)

subsection \<open>A sampling pass\<close>

lemma sampling_raises:
  assumes "count_results model (detect model fr) [] = Inl err"
  shows "sampling model fr st w =
     (Inl err, w\<lparr>model_calls := model_calls w @ [fr], ticks := Suc (Suc (ticks w))\<rparr>)"
  using assms by (simp add: sampling_def time_time_def call_model_def Let_def)

lemma sampling_empty:
  assumes "count_results model (detect model fr) [] = Inr []"
  shows "sampling model fr st w =
     (Inr (st\<lparr>smoothed_fps := smooth (smoothed_fps st) (instant_of (sample_dt w)),
              last_results := Some (detect model fr)\<rparr>),
      update_latest_stats (smooth (smoothed_fps st) (instant_of (sample_dt w))) [] None
        (w\<lparr>model_calls := model_calls w @ [fr], ticks := Suc (Suc (ticks w))\<rparr>))"
  using assms
  by (simp add: sampling_def time_time_def call_model_def Let_def alert_policy_empty sample_dt_def)

lemma sampling_nonempty:
  assumes "count_results model (detect model fr) [] = Inr counts" "counts \<noteq> []"
    and "py_max_items counts = Inr item" "map_of counts (fst item) = Some (snd item)"
  shows "sampling model fr st w =
     (Inr (st\<lparr>smoothed_fps := smooth (smoothed_fps st) (instant_of (sample_dt w)),
              last_results := Some (detect model fr),
              last_alert_time := (if sample_time w - last_alert_time st > 3 then sample_time w
                                  else last_alert_time st)\<rparr>),
      update_latest_stats (smooth (smoothed_fps st) (instant_of (sample_dt w)))
        (stored_counts counts)
        (if sample_time w - last_alert_time st > 3
         then Some (alert_text (snd item) (fst item)) else None)
        (w\<lparr>model_calls := model_calls w @ [fr], ticks := Suc (Suc (Suc (ticks w))),
           stdout := stdout w @ [detected_text (snd item) (fst item)]\<rparr>))"
  using assms
  by (simp add: sampling_def time_time_def call_model_def Let_def sample_dt_def sample_time_def
      stored_counts_def alert_policy_nonempty[OF assms(3,4,2)])

lemma sampling_named:
  assumes "results_named model (detect model fr)"
  obtains counts where
    "count_results model (detect model fr) [] = Inr counts" "counts_wf counts"
    "fst ` set counts \<subseteq> set allowed_classes"
    "sampling model fr st w =
       (Inr (st\<lparr>smoothed_fps := smooth (smoothed_fps st) (instant_of (sample_dt w)),
                last_results := Some (detect model fr),
                last_alert_time :=
                  (if counts \<noteq> [] \<and> sample_time w - last_alert_time st > 3 then sample_time w
                   else last_alert_time st)\<rparr>),
        update_latest_stats (smooth (smoothed_fps st) (instant_of (sample_dt w)))
          (stored_counts counts) (alert_of counts (sample_time w) (last_alert_time st))
          (before_update fr counts w))"
proof -
  from count_results_total[OF assms] obtain counts where
    cr: "count_results model (detect model fr) [] = Inr counts" by blast
  have wf: "counts_wf counts"
    by (rule count_results_wf[OF cr]) (simp add: counts_wf_def)
  have keys: "fst ` set counts \<subseteq> set allowed_classes"
    by (rule count_results_keys[OF cr]) simp
  show thesis
  proof (cases "counts = []")
    case True
    have "stored_counts [] = []" by (simp add: stored_counts_def)
    then show ?thesis
      using sampling_empty[OF cr[unfolded True], of st w] True
      by (intro that[OF cr wf keys]) (simp add: alert_of_def before_update_def)
  next
    case False
    from wf have d: "distinct (map fst counts)" by (simp add: counts_wf_def)
    from py_max_items_ok[OF False d] obtain item where
      it: "py_max_items counts = Inr item" "map_of counts (fst item) = Some (snd item)"
      by blast
    have pl: "plurality counts = item" by (simp add: plurality_def it)
    show ?thesis
      using sampling_nonempty[OF cr False it, of st w] False
      by (intro that[OF cr wf keys]) (simp add: alert_of_def before_update_def pl)
  qed
qed

lemma gen_next_finished:
  "status st = Finished \<Longrightarrow> gen_next model source scale (st, w) = (StopIteration, st, w)"
  by (simp add: gen_next_def)

lemma gen_next_ready:
  "status st \<noteq> Finished \<Longrightarrow>
   gen_next model source scale (st, w) = loop_pass model scale (ready source st) w"
  by (cases "status st") (simp_all add: gen_next_def ready_def)

lemma loop_pass_exhausted:
  assumes "pending (cap st) = []"
  shows "loop_pass model scale st w =
     (StopIteration, st\<lparr>status := Finished, cap := cap_release (cap st)\<rparr>, w)"
  using assms by (simp add: loop_pass_def cap_read_def)

lemma loop_pass_skip:
  assumes "pending (cap st) = fr # rest" "Suc (frame_count st) mod 6 \<noteq> 0"
    and "overlay model fr (last_results st) = Inr fr'"
  shows "loop_pass model scale st w =
     (sent fr' scale,
      st\<lparr>status := status_sent fr' scale, cap := (cap st)\<lparr>pending := rest\<rparr>,
         frame_count := Suc (frame_count st)\<rparr>, w)"
  using assms
  by (simp add: loop_pass_def cap_read_def Let_def sent_def status_sent_def cv2_resize_def
      cv2_imencode_def)

lemma loop_pass_sample:
  assumes "pending (cap st) = fr # rest" "Suc (frame_count st) mod 6 = 0"
    and "sampling model fr (st\<lparr>cap := (cap st)\<lparr>pending := rest\<rparr>,
            frame_count := Suc (frame_count st)\<rparr>) w = (Inr st2, w')"
    and "overlay model fr (last_results st2) = Inr fr'"
  shows "loop_pass model scale st w =
     (sent fr' scale, st2\<lparr>status := status_sent fr' scale\<rparr>, w')"
  using assms
  by (simp add: loop_pass_def cap_read_def Let_def sent_def status_sent_def cv2_resize_def
      cv2_imencode_def)

subsection \<open>One resumption of the generator\<close>

lemma gen_next_exhausted:
  assumes "status st \<noteq> Finished" "pending (cap (ready source st)) = []"
  shows "gen_next model source scale (st, w) =
     (StopIteration,
      (ready source st)\<lparr>status := Finished, cap := cap_release (cap (ready source st))\<rparr>, w)"
  using assms by (simp add: gen_next_ready loop_pass_exhausted)

lemma gen_next_skip:
  assumes "status st \<noteq> Finished" "pending (cap (ready source st)) = fr # rest"
    and "Suc (frame_count (ready source st)) mod 6 \<noteq> 0"
    and "overlay model fr (last_results (ready source st)) = Inr fr'"
  shows "gen_next model source scale (st, w) =
     (sent fr' scale,
      (ready source st)\<lparr>status := status_sent fr' scale,
         cap := (cap (ready source st))\<lparr>pending := rest\<rparr>,
         frame_count := Suc (frame_count (ready source st))\<rparr>, w)"
  using assms by (simp add: gen_next_ready loop_pass_skip)

lemma overlay_named:
  assumes "results_named model rs"
  obtains fr' where "overlay model fr (Some rs) = Inr fr'"
  using draw_boxes_total[OF assms, of fr] by (auto simp: overlay_def)

lemma gen_next_sample:
  assumes "status st \<noteq> Finished" "pending (cap (ready source st)) = fr # rest"
    and "Suc (frame_count (ready source st)) mod 6 = 0"
    and "results_named model (detect model fr)"
  obtains counts fr' where
    "count_results model (detect model fr) [] = Inr counts" "counts_wf counts"
    "fst ` set counts \<subseteq> set allowed_classes"
    "overlay model fr (Some (detect model fr)) = Inr fr'"
    "gen_next model source scale (st, w) =
       (sent fr' scale,
        (ready source st)\<lparr>status := status_sent fr' scale,
           cap := (cap (ready source st))\<lparr>pending := rest\<rparr>,
           frame_count := Suc (frame_count (ready source st)),
           smoothed_fps := smooth (smoothed_fps (ready source st)) (instant_of (sample_dt w)),
           last_results := Some (detect model fr),
           last_alert_time :=
             (if counts \<noteq> [] \<and> sample_time w - last_alert_time (ready source st) > 3
              then sample_time w else last_alert_time (ready source st))\<rparr>,
        update_latest_stats (smooth (smoothed_fps (ready source st)) (instant_of (sample_dt w)))
          (stored_counts counts)
          (alert_of counts (sample_time w) (last_alert_time (ready source st)))
          (before_update fr counts w))"
proof -
  let ?R = "ready source st"
  let ?st1 = "?R\<lparr>cap := (cap ?R)\<lparr>pending := rest\<rparr>, frame_count := Suc (frame_count ?R)\<rparr>"
  from sampling_named[OF assms(4), of ?st1 w] obtain counts where
    c: "count_results model (detect model fr) [] = Inr counts" "counts_wf counts"
       "fst ` set counts \<subseteq> set allowed_classes"
    and s: "sampling model fr ?st1 w =
       (Inr (?st1\<lparr>smoothed_fps := smooth (smoothed_fps ?st1) (instant_of (sample_dt w)),
                last_results := Some (detect model fr),
                last_alert_time :=
                  (if counts \<noteq> [] \<and> sample_time w - last_alert_time ?st1 > 3 then sample_time w
                   else last_alert_time ?st1)\<rparr>),
        update_latest_stats (smooth (smoothed_fps ?st1) (instant_of (sample_dt w)))
          (stored_counts counts) (alert_of counts (sample_time w) (last_alert_time ?st1))
          (before_update fr counts w))"
    by blast
  from overlay_named[OF assms(4), of fr] obtain fr' where
    o: "overlay model fr (Some (detect model fr)) = Inr fr'" by blast
  have "gen_next model source scale (st, w) = loop_pass model scale ?R w"
    by (rule gen_next_ready[OF assms(1)])
  also have "\<dots> = (sent fr' scale,
        (?st1\<lparr>smoothed_fps := smooth (smoothed_fps ?st1) (instant_of (sample_dt w)),
                last_results := Some (detect model fr),
                last_alert_time :=
                  (if counts \<noteq> [] \<and> sample_time w - last_alert_time ?st1 > 3 then sample_time w
                   else last_alert_time ?st1)\<rparr>)\<lparr>status := status_sent fr' scale\<rparr>,
        update_latest_stats (smooth (smoothed_fps ?st1) (instant_of (sample_dt w)))
          (stored_counts counts) (alert_of counts (sample_time w) (last_alert_time ?st1))
          (before_update fr counts w))"
    by (rule loop_pass_sample[OF assms(2,3) s]) (simp add: o)
  finally show thesis
    by (intro that[OF c o]) simp
qed

subsection \<open>Runs of the generator\<close>

lemma after_0: "after model source scale 0 c = c"
  by (simp add: after_def)

lemma after_Suc:
  "after model source scale (Suc k) c = snd (gen_next model source scale (after model source scale k c))"
  by (simp add: after_def)


lemma ready_started: "status st \<noteq> Created \<Longrightarrow> ready source st = st"
  by (simp add: ready_def)

lemma ready_generate_frames:
  "ready source generate_frames =
     \<lparr>status = Created, cap = \<lparr>pending = source, released = 0\<rparr>, frame_count = 0,
      last_results = None, smoothed_fps = 0, last_alert_time = 0\<rparr>"
  by (simp add: ready_def generate_frames_def gen_init_def VideoCapture_def)

lemma current_results_Suc:
  assumes "Suc k mod 6 \<noteq> 0"
  shows "current_results model source (Suc k) = current_results model source k"
proof -
  have m: "Suc k mod 6 = Suc (k mod 6)" using assms by (simp add: mod_Suc split: if_splits)
  have 2: "Suc k - Suc k mod 6 = k - k mod 6" by (simp add: m)
  have "k \<noteq> 5" using assms by auto
  then have 1: "Suc k < 6 \<longleftrightarrow> k < 6" by auto
  show ?thesis unfolding current_results_def 1 2 ..
qed

lemma current_results_sample:
  assumes "Suc k mod 6 = 0"
  shows "current_results model source (Suc k) = Some (detect model (source ! k))"
proof -
  have "6 \<le> Suc k" using assms by (cases "Suc k < 6") auto
  then show ?thesis using assms by (simp add: current_results_def)
qed

lemma current_results_named:
  assumes "source_named model source" "k \<le> length source" "current_results model source k = Some rs"
  shows "results_named model rs"
proof -
  from assms(3) have k: "\<not> k < 6" and rs: "rs = detect model (source ! (k - k mod 6 - 1))"
    by (auto simp: current_results_def split: if_splits)
  have "k mod 6 < 6" by simp
  then have "k - k mod 6 - 1 < k" using k by linarith
  then have "k - k mod 6 - 1 < length source" using assms(2) by simp
  then have "source ! (k - k mod 6 - 1) \<in> set source" by simp
  then show ?thesis using assms(1) rs by (simp add: source_named_def)
qed

lemma run_inv:
  assumes "source_ok model source scale" "k \<le> length source"
  shows "status (fst (after model source scale k (generate_frames, w))) \<noteq> Finished \<and>
     (0 < k \<longrightarrow> status (fst (after model source scale k (generate_frames, w))) = Suspended) \<and>
     pending (cap (ready source (fst (after model source scale k (generate_frames, w))))) = drop k source \<and>
     released (cap (ready source (fst (after model source scale k (generate_frames, w))))) = 0 \<and>
     frame_count (ready source (fst (after model source scale k (generate_frames, w)))) = k \<and>
     last_results (ready source (fst (after model source scale k (generate_frames, w)))) =
       current_results model source k"
  using assms(2)
proof (induction k)
  case 0
  show ?case
    by (simp add: after_0 ready_generate_frames current_results_def) (simp add: generate_frames_def)
next
  case (Suc k)
  obtain st w' where c: "after model source scale k (generate_frames, w) = (st, w')"
    by (cases "after model source scale k (generate_frames, w)")
  let ?R = "ready source st"
  from Suc have k: "k < length source" by simp
  from Suc.IH c k have inv: "status st \<noteq> Finished" "pending (cap ?R) = drop k source"
    "released (cap ?R) = 0" "frame_count ?R = k" "last_results ?R = current_results model source k"
    by simp_all
  have p: "pending (cap ?R) = source ! k # drop (Suc k) source"
    using inv(2) k by (simp add: Cons_nth_drop_Suc)
  have n: "results_named model (detect model (source ! k))"
    using source_okD(1)[OF assms(1)] k by (simp add: source_named_def)
  define st2 where "st2 = fst (snd (gen_next model source scale (st, w')))"
  have a: "fst (after model source scale (Suc k) (generate_frames, w)) = st2"
    by (simp add: after_Suc c st2_def)
  show ?case
  proof (cases "Suc k mod 6 = 0")
    case True
    then have m: "Suc (frame_count ?R) mod 6 = 0" by (simp add: inv(4))
    obtain counts fr' where
      "count_results model (detect model (source ! k)) [] = Inr counts" "counts_wf counts"
      "fst ` set counts \<subseteq> set allowed_classes"
      and o: "overlay model (source ! k) (Some (detect model (source ! k))) = Inr fr'"
      and g: "gen_next model source scale (st, w') =
       (sent fr' scale,
        ?R\<lparr>status := status_sent fr' scale,
           cap := (cap ?R)\<lparr>pending := drop (Suc k) source\<rparr>,
           frame_count := Suc (frame_count ?R),
           smoothed_fps := smooth (smoothed_fps ?R) (instant_of (sample_dt w')),
           last_results := Some (detect model (source ! k)),
           last_alert_time :=
             (if counts \<noteq> [] \<and> sample_time w' - last_alert_time ?R > 3
              then sample_time w' else last_alert_time ?R)\<rparr>,
        update_latest_stats (smooth (smoothed_fps ?R) (instant_of (sample_dt w')))
          (stored_counts counts)
          (alert_of counts (sample_time w') (last_alert_time ?R))
          (before_update (source ! k) counts w'))"
      by (rule gen_next_sample[OF inv(1) p m n, of scale w'])
    have rz: "resize_ok fr' scale" by (rule source_okD(3)[OF assms(1) k o])
    have s: "status st2 = Suspended" "pending (cap st2) = drop (Suc k) source"
      "released (cap st2) = released (cap ?R)"
      "frame_count st2 = Suc (frame_count ?R)" "last_results st2 = Some (detect model (source ! k))"
      by (simp_all add: st2_def g sent_ok[OF rz])
    have r: "ready source st2 = st2" by (rule ready_started) (simp add: s)
    show ?thesis
      unfolding a r using s inv(3,4) by (simp add: current_results_sample[OF True])
  next
    case False
    then have m: "Suc (frame_count ?R) mod 6 \<noteq> 0" by (simp add: inv(4))
    have "\<exists>fr'. overlay model (source ! k) (last_results ?R) = Inr fr'"
    proof (cases "last_results ?R")
      case None
      then show ?thesis by (simp add: overlay_def)
    next
      case (Some rs)
      then have "current_results model source k = Some rs" using inv(5) by simp
      then have "results_named model rs"
        using current_results_named[OF source_okD(1)[OF assms(1)], of k rs] k by simp
      from overlay_named[OF this, of "source ! k"] show ?thesis using Some by auto
    qed
    then obtain fr' where o: "overlay model (source ! k) (last_results ?R) = Inr fr'" by blast
    note g = gen_next_skip[OF inv(1) p m o, of scale w']
    have rz: "resize_ok fr' scale" by (rule source_okD(3)[OF assms(1) k o])
    have s: "status st2 = Suspended" "pending (cap st2) = drop (Suc k) source"
      "released (cap st2) = released (cap ?R)"
      "frame_count st2 = Suc (frame_count ?R)" "last_results st2 = last_results ?R"
      by (simp_all add: st2_def g sent_ok[OF rz])
    have r: "ready source st2 = st2" by (rule ready_started) (simp add: s)
    show ?thesis
      unfolding a r using s inv(3,4,5) by (simp add: current_results_Suc[OF False])
  qed
qed

lemma loop_pass_skip_raise:
  assumes "pending (cap st) = fr # rest" "Suc (frame_count st) mod 6 \<noteq> 0"
    and "overlay model fr (last_results st) = Inl err"
  shows "loop_pass model scale st w =
     (Raised err,
      st\<lparr>status := Finished, cap := (cap st)\<lparr>pending := rest\<rparr>,
         frame_count := Suc (frame_count st)\<rparr>, w)"
  using assms by (simp add: loop_pass_def cap_read_def Let_def)

lemma loop_pass_sample_raise:
  assumes "pending (cap st) = fr # rest" "Suc (frame_count st) mod 6 = 0"
    and "count_results model (detect model fr) [] = Inl err"
  shows "loop_pass model scale st w =
     (Raised err,
      st\<lparr>status := Finished, cap := (cap st)\<lparr>pending := rest\<rparr>,
         frame_count := Suc (frame_count st)\<rparr>,
      w\<lparr>model_calls := model_calls w @ [fr], ticks := Suc (Suc (ticks w))\<rparr>)"
  using assms by (simp add: loop_pass_def cap_read_def Let_def sampling_raises)

lemma gen_next_cases:
  obtains
    (finished) "status st = Finished"
      "gen_next model source scale (st, w) = (StopIteration, st, w)"
  | (exhausted) "status st \<noteq> Finished" "pending (cap (ready source st)) = []"
      "gen_next model source scale (st, w) =
         (StopIteration,
          (ready source st)\<lparr>status := Finished, cap := cap_release (cap (ready source st))\<rparr>, w)"
  | (skip) fr rest fr' where "status st \<noteq> Finished" "pending (cap (ready source st)) = fr # rest"
      "Suc (frame_count (ready source st)) mod 6 \<noteq> 0"
      "overlay model fr (last_results (ready source st)) = Inr fr'"
      "gen_next model source scale (st, w) =
         (sent fr' scale,
          (ready source st)\<lparr>status := status_sent fr' scale,
             cap := (cap (ready source st))\<lparr>pending := rest\<rparr>,
             frame_count := Suc (frame_count (ready source st))\<rparr>, w)"
  | (skip_raise) fr rest err where "status st \<noteq> Finished"
      "pending (cap (ready source st)) = fr # rest"
      "Suc (frame_count (ready source st)) mod 6 \<noteq> 0"
      "gen_next model source scale (st, w) =
         (Raised err,
          (ready source st)\<lparr>status := Finished,
             cap := (cap (ready source st))\<lparr>pending := rest\<rparr>,
             frame_count := Suc (frame_count (ready source st))\<rparr>, w)"
  | (sample) fr rest counts fr' where "status st \<noteq> Finished"
      "pending (cap (ready source st)) = fr # rest"
      "Suc (frame_count (ready source st)) mod 6 = 0"
      "count_results model (detect model fr) [] = Inr counts" "counts_wf counts"
      "fst ` set counts \<subseteq> set allowed_classes"
      "overlay model fr (Some (detect model fr)) = Inr fr'"
      "gen_next model source scale (st, w) =
       (sent fr' scale,
        (ready source st)\<lparr>status := status_sent fr' scale,
           cap := (cap (ready source st))\<lparr>pending := rest\<rparr>,
           frame_count := Suc (frame_count (ready source st)),
           smoothed_fps := smooth (smoothed_fps (ready source st)) (instant_of (sample_dt w)),
           last_results := Some (detect model fr),
           last_alert_time :=
             (if counts \<noteq> [] \<and> sample_time w - last_alert_time (ready source st) > 3
              then sample_time w else last_alert_time (ready source st))\<rparr>,
        update_latest_stats (smooth (smoothed_fps (ready source st)) (instant_of (sample_dt w)))
          (stored_counts counts)
          (alert_of counts (sample_time w) (last_alert_time (ready source st)))
          (before_update fr counts w))"
  | (sample_raise) fr rest err where "status st \<noteq> Finished"
      "pending (cap (ready source st)) = fr # rest"
      "Suc (frame_count (ready source st)) mod 6 = 0"
      "count_results model (detect model fr) [] = Inl err"
      "gen_next model source scale (st, w) =
         (Raised err,
          (ready source st)\<lparr>status := Finished,
             cap := (cap (ready source st))\<lparr>pending := rest\<rparr>,
             frame_count := Suc (frame_count (ready source st))\<rparr>,
          w\<lparr>model_calls := model_calls w @ [fr], ticks := Suc (Suc (ticks w))\<rparr>)"
proof (cases "status st = Finished")
  case True
  then show ?thesis by (intro finished) (simp_all add: gen_next_finished)
next
  case nf: False
  let ?R = "ready source st"
  show ?thesis
  proof (cases "pending (cap ?R)")
    case Nil
    show ?thesis by (rule exhausted[OF nf Nil gen_next_exhausted[OF nf Nil]])
  next
    case (Cons fr rest)
    show ?thesis
    proof (cases "Suc (frame_count ?R) mod 6 = 0")
      case False
      show ?thesis
      proof (cases "overlay model fr (last_results ?R)")
        case (Inl err)
        have "gen_next model source scale (st, w) = loop_pass model scale ?R w"
          by (rule gen_next_ready[OF nf])
        then show ?thesis
          using loop_pass_skip_raise[OF Cons False Inl, of scale w]
          by (intro skip_raise[OF nf Cons False]) simp
      next
        case (Inr fr')
        show ?thesis
          by (rule skip[OF nf Cons False Inr gen_next_skip[OF nf Cons False Inr]])
      qed
    next
      case True
      show ?thesis
      proof (cases "count_results model (detect model fr) []")
        case (Inl err)
        have "gen_next model source scale (st, w) = loop_pass model scale ?R w"
          by (rule gen_next_ready[OF nf])
        then show ?thesis
          using loop_pass_sample_raise[OF Cons True Inl, of scale w]
          by (intro sample_raise[OF nf Cons True Inl]) simp
      next
        case (Inr counts)
        have n: "results_named model (detect model fr)"
          by (rule count_results_named[OF Inr])
        show ?thesis
        proof (rule gen_next_sample[OF nf Cons True n, of scale w])
          fix counts' fr'
          assume a: "count_results model (detect model fr) [] = Inr counts'" "counts_wf counts'"
            "fst ` set counts' \<subseteq> set allowed_classes"
            "overlay model fr (Some (detect model fr)) = Inr fr'"
            and g: "gen_next model source scale (st, w) =
       (sent fr' scale,
        (ready source st)\<lparr>status := status_sent fr' scale,
           cap := (cap (ready source st))\<lparr>pending := rest\<rparr>,
           frame_count := Suc (frame_count (ready source st)),
           smoothed_fps := smooth (smoothed_fps (ready source st)) (instant_of (sample_dt w)),
           last_results := Some (detect model fr),
           last_alert_time :=
             (if counts' \<noteq> [] \<and> sample_time w - last_alert_time (ready source st) > 3
              then sample_time w else last_alert_time (ready source st))\<rparr>,
        update_latest_stats (smooth (smoothed_fps (ready source st)) (instant_of (sample_dt w)))
          (stored_counts counts')
          (alert_of counts' (sample_time w) (last_alert_time (ready source st)))
          (before_update fr counts' w))"
          show ?thesis by (rule sample[OF nf Cons True a g])
        qed
      qed
    qed
  qed
qed

subsection \<open>What a resumption does to the store\<close>

lemma before_update_frame:
  "cells (before_update fr counts w) = cells w"
  "next_free (before_update fr counts w) = next_free w"
  "clock (before_update fr counts w) = clock w"
  "model_calls (before_update fr counts w) = model_calls w @ [fr]"
  "ticks (before_update fr counts w) = ticks w + (if counts = [] then 2 else 3)"
  by (simp_all add: before_update_def)

lemma store_ok_cong:
  "cells w' = cells w \<Longrightarrow> next_free w' = next_free w \<Longrightarrow> store_ok w' = store_ok w"
  by (simp add: store_ok_def cong: option.case_cong pyval.case_cong)

lemma truthy_alert_of:
  "truthy (alert_of counts now prev) \<longleftrightarrow> counts \<noteq> [] \<and> now - prev > 3"
  by (simp add: alert_of_def truthy_alert_text) (simp add: truthy_def)

lemma pushed_store:
  assumes ok: "store_ok w" and same: "cells wb = cells w" "next_free wb = next_free w"
    and w'_def: "w' = update_latest_stats fps cs am wb"
  shows "store_ok w'"
    and "fps_now w' = Some (PyFloat fps)"
    and "counts_now w' = Some cs"
    and "emitted w w' \<longleftrightarrow> truthy am"
    and "\<not> truthy am \<Longrightarrow> alert_now w' = alert_now w"
    and "\<And>m. am = Some m \<Longrightarrow> m \<noteq> [] \<Longrightarrow>
           alert_now w' = Some [(''message'', PyStr m), (''ts'', PyFloat (clock wb (Suc (ticks wb))))]"
proof -
  have okb: "store_ok wb" using ok store_ok_cong[OF same] by simp
  from ok obtain c a where
    ca: "map_of (cells w 0) ''alert'' = Some (PyRef a)" "0 < a" "a < next_free w"
    by (rule store_okE)
  have nf: "0 < next_free wb" using ca same by simp
  show "store_ok w'" unfolding w'_def by (rule store_ok_update[OF okb])
  show "fps_now w' = Some (PyFloat fps)"
    by (simp add: fps_now_def w'_def uls_stats[OF nf])
  show "counts_now w' = Some cs"
    by (simp add: counts_now_def w'_def uls_stats[OF nf] deref_def uls_new_counts[OF nf])
  show "emitted w w' \<longleftrightarrow> truthy am"
    using ca same by (auto simp: emitted_def w'_def uls_stats[OF nf])
  show "alert_now w' = alert_now w" if "\<not> truthy am"
  proof -
    have "cells w' a = cells wb a"
      unfolding w'_def using ca same by (intro uls_cells_other) simp_all
    then show ?thesis
      using that ca same by (simp add: alert_now_def w'_def uls_stats[OF nf] deref_def)
  qed
  show "alert_now w' = Some [(''message'', PyStr m), (''ts'', PyFloat (clock wb (Suc (ticks wb))))]"
    if "am = Some m" "m \<noteq> []" for m
  proof -
    have t: "truthy am" using that by (simp add: truthy_def)
    show ?thesis
      by (simp add: alert_now_def w'_def uls_stats[OF nf] t deref_def uls_new_alert[OF nf that])
  qed
qed

lemma next_counts_SomeD:
  assumes "next_counts model source (st, w) = Some counts"
  obtains fr rest where "status st \<noteq> Finished" "pending (cap (ready source st)) = fr # rest"
    "Suc (frame_count (ready source st)) mod 6 = 0"
    "count_results model (detect model fr) [] = Inr counts"
  using assms
  by (auto simp: next_counts_def split: if_splits list.splits sum.splits)

lemma gen_next_sampled:
  assumes "next_counts model source (st, w) = Some counts"
  obtains fr rest fr' where
    "pending (cap (ready source st)) = fr # rest"
    "count_results model (detect model fr) [] = Inr counts" "counts_wf counts"
    "fst ` set counts \<subseteq> set allowed_classes"
    "gen_next model source scale (st, w) =
       (sent fr' scale,
        (ready source st)\<lparr>status := status_sent fr' scale,
           cap := (cap (ready source st))\<lparr>pending := rest\<rparr>,
           frame_count := Suc (frame_count (ready source st)),
           smoothed_fps := smooth (smoothed_fps (ready source st)) (instant_of (sample_dt w)),
           last_results := Some (detect model fr),
           last_alert_time :=
             (if counts \<noteq> [] \<and> sample_time w - last_alert_time (ready source st) > 3
              then sample_time w else last_alert_time (ready source st))\<rparr>,
        update_latest_stats (smooth (smoothed_fps (ready source st)) (instant_of (sample_dt w)))
          (stored_counts counts)
          (alert_of counts (sample_time w) (last_alert_time (ready source st)))
          (before_update fr counts w))"
proof -
  from assms obtain fr rest where
    a: "status st \<noteq> Finished" "pending (cap (ready source st)) = fr # rest"
    "Suc (frame_count (ready source st)) mod 6 = 0"
    and cr: "count_results model (detect model fr) [] = Inr counts"
    by (rule next_counts_SomeD)
  have n: "results_named model (detect model fr)" by (rule count_results_named[OF cr])
  show thesis
  proof (rule gen_next_sample[OF a n, of scale w])
    fix counts' fr'
    assume b: "count_results model (detect model fr) [] = Inr counts'" "counts_wf counts'"
        "fst ` set counts' \<subseteq> set allowed_classes"
      and g: "gen_next model source scale (st, w) =
       (sent fr' scale,
        (ready source st)\<lparr>status := status_sent fr' scale,
           cap := (cap (ready source st))\<lparr>pending := rest\<rparr>,
           frame_count := Suc (frame_count (ready source st)),
           smoothed_fps := smooth (smoothed_fps (ready source st)) (instant_of (sample_dt w)),
           last_results := Some (detect model fr),
           last_alert_time :=
             (if counts' \<noteq> [] \<and> sample_time w - last_alert_time (ready source st) > 3
              then sample_time w else last_alert_time (ready source st))\<rparr>,
        update_latest_stats (smooth (smoothed_fps (ready source st)) (instant_of (sample_dt w)))
          (stored_counts counts')
          (alert_of counts' (sample_time w) (last_alert_time (ready source st)))
          (before_update fr counts' w))"
    have e: "counts' = counts" using b(1) cr by simp
    show thesis by (rule that[OF a(2) cr b(2,3)[unfolded e] g[unfolded e]])
  qed
qed

lemma gen_next_not_sampled:
  assumes "next_counts model source (st, w) = None"
  shows "cells (snd (snd (gen_next model source scale (st, w)))) = cells w"
    and "next_free (snd (snd (gen_next model source scale (st, w)))) = next_free w"
    and "clock (snd (snd (gen_next model source scale (st, w)))) = clock w"
    and "last_alert_time (ready source (fst (snd (gen_next model source scale (st, w))))) =
           last_alert_time (ready source st)"
    and "smoothed_fps (ready source (fst (snd (gen_next model source scale (st, w))))) =
           smoothed_fps (ready source st)"
proof -
  have "cells (snd (snd (gen_next model source scale (st, w)))) = cells w \<and>
     next_free (snd (snd (gen_next model source scale (st, w)))) = next_free w \<and>
     clock (snd (snd (gen_next model source scale (st, w)))) = clock w \<and>
     last_alert_time (ready source (fst (snd (gen_next model source scale (st, w))))) =
           last_alert_time (ready source st) \<and>
     smoothed_fps (ready source (fst (snd (gen_next model source scale (st, w))))) =
           smoothed_fps (ready source st)"
  proof (cases rule: gen_next_cases[of st model source scale w])
    case finished
    then show ?thesis by simp
  next
    case exhausted
    then show ?thesis by (simp add: ready_started)
  next
    case (skip fr rest fr')
    then show ?thesis by (simp add: ready_started)
  next
    case (skip_raise fr rest err)
    then show ?thesis by (simp add: ready_started)
  next
    case (sample fr rest counts fr')
    then have "next_counts model source (st, w) = Some counts"
      by (simp add: next_counts_def)
    with assms show ?thesis by simp
  next
    case (sample_raise fr rest err)
    then show ?thesis by (simp add: ready_started)
  qed
  then show "cells (snd (snd (gen_next model source scale (st, w)))) = cells w"
    and "next_free (snd (snd (gen_next model source scale (st, w)))) = next_free w"
    and "clock (snd (snd (gen_next model source scale (st, w)))) = clock w"
    and "last_alert_time (ready source (fst (snd (gen_next model source scale (st, w))))) =
           last_alert_time (ready source st)"
    and "smoothed_fps (ready source (fst (snd (gen_next model source scale (st, w))))) =
           smoothed_fps (ready source st)"
    by simp_all
qed

lemma observe_cong:
  assumes "cells w' = cells w"
  shows "counts_now w' = counts_now w" "alert_now w' = alert_now w" "fps_now w' = fps_now w"
    "counts_allowed w' = counts_allowed w" "\<not> emitted w w'"
  using assms
  by (simp_all add: counts_now_def alert_now_def fps_now_def counts_allowed_def emitted_def deref_def
      cong: option.case_cong pyval.case_cong)

lemma fst_stored_counts: "fst ` set (stored_counts counts) = fst ` set counts"
  by (force simp: stored_counts_def)

lemma gen_next_store:
  assumes "store_ok w"
  shows "store_ok (snd (snd (gen_next model source scale (st, w))))"
    and "counts_allowed w \<Longrightarrow> counts_allowed (snd (snd (gen_next model source scale (st, w))))"
proof -
  let ?w' = "snd (snd (gen_next model source scale (st, w)))"
  have "store_ok ?w' \<and> (counts_allowed w \<longrightarrow> counts_allowed ?w')"
  proof (cases "next_counts model source (st, w)")
    case None
    note n = gen_next_not_sampled[OF None, of scale]
    show ?thesis
      using assms store_ok_cong[OF n(1,2)] observe_cong(4)[OF n(1)] by simp
  next
    case (Some counts)
    show ?thesis
    proof (rule gen_next_sampled[OF Some, of scale])
      fix fr rest fr'
      assume k: "fst ` set counts \<subseteq> set allowed_classes"
        and g: "gen_next model source scale (st, w) =
       (sent fr' scale,
        (ready source st)\<lparr>status := status_sent fr' scale,
           cap := (cap (ready source st))\<lparr>pending := rest\<rparr>,
           frame_count := Suc (frame_count (ready source st)),
           smoothed_fps := smooth (smoothed_fps (ready source st)) (instant_of (sample_dt w)),
           last_results := Some (detect model fr),
           last_alert_time :=
             (if counts \<noteq> [] \<and> sample_time w - last_alert_time (ready source st) > 3
              then sample_time w else last_alert_time (ready source st))\<rparr>,
        update_latest_stats (smooth (smoothed_fps (ready source st)) (instant_of (sample_dt w)))
          (stored_counts counts)
          (alert_of counts (sample_time w) (last_alert_time (ready source st)))
          (before_update fr counts w))"
      have w': "?w' = update_latest_stats (smooth (smoothed_fps (ready source st)) (instant_of (sample_dt w)))
          (stored_counts counts)
          (alert_of counts (sample_time w) (last_alert_time (ready source st)))
          (before_update fr counts w)"
        by (simp add: g)
      note p = pushed_store[OF assms before_update_frame(1,2) w']
      have "counts_allowed ?w'"
        using p(3) k by (simp add: counts_allowed_def fst_stored_counts)
      then show ?thesis using p(1) by simp
    qed
  qed
  then show "store_ok ?w'" and "counts_allowed w \<Longrightarrow> counts_allowed ?w'" by simp_all
qed

lemma after_store:
  assumes "store_ok w" "counts_allowed w"
  shows "store_ok (snd (after model source scale k (st, w))) \<and>
         counts_allowed (snd (after model source scale k (st, w)))"
proof (induction k)
  case 0
  then show ?case using assms by (simp add: after_0)
next
  case (Suc k)
  obtain st' w' where c: "after model source scale k (st, w) = (st', w')"
    by (cases "after model source scale k (st, w)")
  with Suc have "store_ok w'" "counts_allowed w'" by simp_all
  from gen_next_store[OF this(1), of model source scale st'] this(2)
  show ?case by (simp add: after_Suc c)
qed

lemma initial_counts_allowed: "counts_allowed (initial_world clk)"
  by (simp add: counts_allowed_def counts_now_def deref_def initial_world_def)

lemma plurality_props:
  assumes "counts \<noteq> []" "counts_wf counts"
  shows "\<exists>pre post. counts = pre @ plurality counts # post \<and>
      (\<forall>p \<in> set pre. snd p < snd (plurality counts)) \<and>
      (\<forall>p \<in> set post. snd p \<le> snd (plurality counts))"
    and "map_of counts (fst (plurality counts)) = Some (snd (plurality counts))"
    and "1 \<le> snd (plurality counts)"
proof -
  from assms(1) obtain x xs where c: "counts = x # xs" by (cases counts) auto
  have pl: "plurality counts = max_from x xs" by (simp add: plurality_def py_max_items_def c)
  have "\<exists>pre post. x # xs = pre @ max_from x xs # post \<and>
      (\<forall>p \<in> set pre. snd p < snd (max_from x xs)) \<and>
      (\<forall>p \<in> set post. snd p \<le> snd (max_from x xs))"
    by (rule max_from_first)
  then show "\<exists>pre post. counts = pre @ plurality counts # post \<and>
      (\<forall>p \<in> set pre. snd p < snd (plurality counts)) \<and>
      (\<forall>p \<in> set post. snd p \<le> snd (plurality counts))"
    by (simp only: pl c[symmetric])
  have "max_from x xs \<in> set (x # xs)" using max_from_props[of x xs] by blast
  then have m: "plurality counts \<in> set counts" by (simp only: pl c[symmetric])
  have d: "distinct (map fst counts)" using assms(2) by (simp add: counts_wf_def)
  have "(fst (plurality counts), snd (plurality counts)) \<in> set counts" using m by simp
  then show "map_of counts (fst (plurality counts)) = Some (snd (plurality counts))"
    using d by (simp only: map_of_eq_Some_iff)
  show "1 \<le> snd (plurality counts)" using m assms(2) by (simp add: counts_wf_def)
qed

subsection \<open>Resumptions within a run over a source\<close>

lemma run_skip:
  assumes "source_ok model source scale" "k < length source" "Suc k mod 6 \<noteq> 0"
  obtains fr' where
    "overlay model (source ! k) (current_results model source k) = Inr fr'"
    "gen_next model source scale (after model source scale k (generate_frames, w)) =
       (Yielded \<lparr>encoded = fr', scaled_by = scale\<rparr>,
        (ready source (fst (after model source scale k (generate_frames, w))))
          \<lparr>status := Suspended,
           cap := (cap (ready source (fst (after model source scale k (generate_frames, w)))))
                    \<lparr>pending := drop (Suc k) source\<rparr>,
           frame_count := Suc k\<rparr>,
        snd (after model source scale k (generate_frames, w)))"
proof -
  obtain st w' where c: "after model source scale k (generate_frames, w) = (st, w')"
    by (cases "after model source scale k (generate_frames, w)")
  let ?R = "ready source st"
  from run_inv[OF assms(1), of k w] assms(2) c
  have inv: "status st \<noteq> Finished" "pending (cap ?R) = drop k source"
    "frame_count ?R = k" "last_results ?R = current_results model source k"
    by simp_all
  have p: "pending (cap ?R) = source ! k # drop (Suc k) source"
    using inv(2) assms(2) by (simp add: Cons_nth_drop_Suc)
  have m: "Suc (frame_count ?R) mod 6 \<noteq> 0" using assms(3) by (simp add: inv(3))
  have "\<exists>fr'. overlay model (source ! k) (current_results model source k) = Inr fr'"
  proof (cases "current_results model source k")
    case None
    then show ?thesis by (simp add: overlay_def)
  next
    case (Some rs)
    then have "results_named model rs"
      using current_results_named[OF source_okD(1)[OF assms(1)], of k rs] assms(2) by simp
    from overlay_named[OF this, of "source ! k"] show ?thesis using Some by auto
  qed
  then obtain fr' where o: "overlay model (source ! k) (current_results model source k) = Inr fr'"
    by (rule exE)
  have o': "overlay model (source ! k) (last_results ?R) = Inr fr'" using o inv(4) by simp
  have rz: "resize_ok fr' scale" by (rule source_okD(3)[OF assms(1,2) o])
  show thesis
    using gen_next_skip[OF inv(1) p m o', of scale w']
    by (intro that[OF o]) (simp add: c inv(3) sent_ok[OF rz])
qed


lemma model_calls_pushed:
  "model_calls (update_latest_stats fps cs am (before_update fr counts w)) = model_calls w @ [fr]"
  by (simp add: uls_frame before_update_frame)



subsection \<open>Smoothing\<close>







lemma gen_next_clock:
  "clock (snd (snd (gen_next model source scale (st, w)))) = clock w"
proof (cases "next_counts model source (st, w)")
  case None
  then show ?thesis by (rule gen_next_not_sampled(3))
next
  case (Some counts)
  show ?thesis
    by (rule gen_next_sampled[OF Some, of scale]) (simp add: uls_frame before_update_frame)
qed

lemma after_clock: "clock (snd (after model source scale k (st, w))) = clock w"
proof (induction k)
  case 0
  show ?case by (simp add: after_0)
next
  case (Suc k)
  obtain st' w' where c: "after model source scale k (st, w) = (st', w')"
    by (cases "after model source scale k (st, w)")
  with Suc have "clock w' = clock w" by simp
  then show ?case using gen_next_clock[of model source scale st' w'] by (simp add: after_Suc c)
qed

lemma after_store_ok:
  assumes "store_ok w"
  shows "store_ok (snd (after model source scale k (st, w)))"
proof (induction k)
  case 0
  show ?case using assms by (simp add: after_0)
next
  case (Suc k)
  obtain st' w' where c: "after model source scale k (st, w) = (st', w')"
    by (cases "after model source scale k (st, w)")
  with Suc have "store_ok w'" by simp
  from gen_next_store(1)[OF this, of model source scale st'] show ?case
    by (simp add: after_Suc c)
qed



subsection \<open>Alerts and the cooldown timer\<close>

lemma after_add:
  "after model source scale (i + j) c = after model source scale j (after model source scale i c)"
  by (simp add: after_def add.commute[of i j] funpow_add)

lemma step_alert:
  assumes "next_counts model source (st, w) = Some counts" "store_ok w"
  shows "status (fst (snd (gen_next model source scale (st, w)))) \<noteq> Created"
    and "emitted w (snd (snd (gen_next model source scale (st, w)))) \<longleftrightarrow>
           counts \<noteq> [] \<and> sample_time w - last_alert_time (ready source st) > 3"
    and "last_alert_time (fst (snd (gen_next model source scale (st, w)))) =
           (if counts \<noteq> [] \<and> sample_time w - last_alert_time (ready source st) > 3
            then sample_time w else last_alert_time (ready source st))"
    and "fps_now (snd (snd (gen_next model source scale (st, w)))) =
           Some (PyFloat (smoothed_fps (fst (snd (gen_next model source scale (st, w))))))"
    and "counts_now (snd (snd (gen_next model source scale (st, w)))) = Some (stored_counts counts)"
    and "\<not> (counts \<noteq> [] \<and> sample_time w - last_alert_time (ready source st) > 3) \<Longrightarrow>
           alert_now (snd (snd (gen_next model source scale (st, w)))) = alert_now w"
    and "counts \<noteq> [] \<and> sample_time w - last_alert_time (ready source st) > 3 \<Longrightarrow>
           alert_now (snd (snd (gen_next model source scale (st, w)))) =
             Some [(''message'', PyStr (alert_text (snd (plurality counts)) (fst (plurality counts)))),
                   (''ts'', PyFloat (clock w (ticks w + 4)))]"
    and "ticks (snd (snd (gen_next model source scale (st, w)))) =
           ticks w + (if counts = [] then 3
                      else if sample_time w - last_alert_time (ready source st) > 3 then 5 else 4)"
    and "model_calls (snd (snd (gen_next model source scale (st, w)))) =
           model_calls w @ [hd (pending (cap (ready source st)))]"
proof -
  let ?R = "ready source st"
  let ?g = "gen_next model source scale (st, w)"
  let ?cond = "counts \<noteq> [] \<and> sample_time w - last_alert_time ?R > 3"
  let ?am = "alert_of counts (sample_time w) (last_alert_time ?R)"
  let ?fps = "smooth (smoothed_fps ?R) (instant_of (sample_dt w))"
  obtain fr rest fr' where p: "pending (cap ?R) = fr # rest"
    and "count_results model (detect model fr) [] = Inr counts" "counts_wf counts"
      "fst ` set counts \<subseteq> set allowed_classes"
    and g: "?g =
       (sent fr' scale,
        ?R\<lparr>status := status_sent fr' scale,
           cap := (cap ?R)\<lparr>pending := rest\<rparr>,
           frame_count := Suc (frame_count ?R),
           smoothed_fps := ?fps,
           last_results := Some (detect model fr),
           last_alert_time := (if ?cond then sample_time w else last_alert_time ?R)\<rparr>,
        update_latest_stats ?fps (stored_counts counts) ?am (before_update fr counts w))"
    by (rule gen_next_sampled[OF assms(1), of scale])
  have w': "snd (snd ?g) = update_latest_stats ?fps (stored_counts counts) ?am (before_update fr counts w)"
    by (simp add: g)
  note ps = pushed_store[OF assms(2) before_update_frame(1,2) w']
  have t: "truthy ?am \<longleftrightarrow> ?cond" by (rule truthy_alert_of)
  show "status (fst (snd ?g)) \<noteq> Created" by (simp add: g)
  show "emitted w (snd (snd ?g)) \<longleftrightarrow> ?cond" using ps(4) t by simp
  show "last_alert_time (fst (snd ?g)) = (if ?cond then sample_time w else last_alert_time ?R)"
    by (simp add: g)
  show "fps_now (snd (snd ?g)) = Some (PyFloat (smoothed_fps (fst (snd ?g))))"
    using ps(2) by (simp add: g)
  show "counts_now (snd (snd ?g)) = Some (stored_counts counts)" by (rule ps(3))
  show "alert_now (snd (snd ?g)) = alert_now w" if "\<not> ?cond"
    using ps(5) t that by simp
  show "alert_now (snd (snd ?g)) =
      Some [(''message'', PyStr (alert_text (snd (plurality counts)) (fst (plurality counts)))),
            (''ts'', PyFloat (clock w (ticks w + 4)))]" if c: "?cond"
  proof -
    have am: "?am = Some (alert_text (snd (plurality counts)) (fst (plurality counts)))"
      using c by (simp add: alert_of_def)
    from ps(6)[OF am alert_text_nonempty] c show ?thesis
      by (simp add: before_update_frame add.commute)
  qed
  show "ticks (snd (snd ?g)) =
      ticks w + (if counts = [] then 3
                 else if sample_time w - last_alert_time ?R > 3 then 5 else 4)"
    using t by (simp add: w' uls_frame before_update_frame)
  show "model_calls (snd (snd ?g)) = model_calls w @ [hd (pending (cap ?R))]"
    by (simp add: w' model_calls_pushed p)
qed

lemma step_timer:
  assumes "next_counts model source (st, w) = None \<or> next_counts model source (st, w) = Some []"
  shows "last_alert_time (ready source (fst (snd (gen_next model source scale (st, w))))) =
     last_alert_time (ready source st)"
proof (cases "next_counts model source (st, w)")
  case None
  then show ?thesis by (rule gen_next_not_sampled(4))
next
  case (Some counts)
  with assms have e: "next_counts model source (st, w) = Some []" by simp
  show ?thesis
    by (rule gen_next_sampled[OF e, of scale]) (simp add: ready_started)
qed

lemma after_timer:
  assumes "\<forall>i. i < j \<longrightarrow>
     next_counts model source (after model source scale i c) = None \<or>
     next_counts model source (after model source scale i c) = Some []"
  shows "last_alert_time (ready source (fst (after model source scale j c))) =
     last_alert_time (ready source (fst c))"
  using assms
proof (induction j)
  case 0
  show ?case by (simp add: after_0)
next
  case (Suc j)
  obtain st w where a: "after model source scale j c = (st, w)"
    by (cases "after model source scale j c")
  have "next_counts model source (st, w) = None \<or> next_counts model source (st, w) = Some []"
    using Suc.prems a by (metis lessI)
  from step_timer[OF this, of scale]
  have "last_alert_time (ready source (fst (after model source scale (Suc j) c))) =
      last_alert_time (ready source st)"
    by (simp add: after_Suc a)
  moreover have "last_alert_time (ready source (fst (after model source scale j c))) =
      last_alert_time (ready source (fst c))"
    using Suc.prems by (intro Suc.IH) simp
  ultimately show ?case by (simp add: a)
qed

lemma two_events:
  assumes ok: "store_ok w1"
    and q1: "next_counts model source (st1, w1) = Some counts1"
    and e1: "emitted w1 (snd (after model source scale (Suc 0) (st1, w1)))"
    and j: "0 < j"
    and between: "\<forall>i. 0 < i \<and> i < j \<longrightarrow>
       next_counts model source (after model source scale i (st1, w1)) = None \<or>
       next_counts model source (after model source scale i (st1, w1)) = Some []"
    and q2: "next_counts model source (after model source scale j (st1, w1)) = Some counts2"
      "counts2 \<noteq> []"
  shows "last_alert_time (ready source (fst (after model source scale j (st1, w1)))) = sample_time w1"
    and "emitted (snd (after model source scale j (st1, w1)))
           (snd (after model source scale (Suc j) (st1, w1))) \<longleftrightarrow>
         sample_time (snd (after model source scale j (st1, w1))) - sample_time w1 > 3"
    and "fps_now (snd (after model source scale (Suc j) (st1, w1))) =
           Some (PyFloat (smoothed_fps (fst (after model source scale (Suc j) (st1, w1)))))"
    and "counts_now (snd (after model source scale (Suc j) (st1, w1))) = Some (stored_counts counts2)"
    and "sample_time (snd (after model source scale j (st1, w1))) - sample_time w1 > 3 \<Longrightarrow>
           last_alert_time (fst (after model source scale (Suc j) (st1, w1))) =
             sample_time (snd (after model source scale j (st1, w1)))"
    and "\<not> sample_time (snd (after model source scale j (st1, w1))) - sample_time w1 > 3 \<Longrightarrow>
           alert_now (snd (after model source scale (Suc j) (st1, w1))) =
             alert_now (snd (after model source scale j (st1, w1))) \<and>
           last_alert_time (fst (after model source scale (Suc j) (st1, w1))) = sample_time w1"
proof -
  let ?c1' = "after model source scale (Suc 0) (st1, w1)"
  let ?c2 = "after model source scale j (st1, w1)"
  let ?c2' = "after model source scale (Suc j) (st1, w1)"
  have s1: "?c1' = snd (gen_next model source scale (st1, w1))"
    by (simp add: after_Suc after_0)
  note a1 = step_alert[OF q1 ok, of scale]
  have cond1: "counts1 \<noteq> [] \<and> sample_time w1 - last_alert_time (ready source st1) > 3"
    using a1(2) e1 by (simp add: s1)
  have t1: "last_alert_time (fst ?c1') = sample_time w1"
    using a1(3) cond1 by (simp add: s1)
  have r1: "ready source (fst ?c1') = fst ?c1'"
    using a1(1) by (intro ready_started) (simp add: s1)
  obtain m where m: "j = Suc m" using j by (cases j) auto
  have c2: "?c2 = after model source scale m ?c1'"
    using after_add[of model source scale "Suc 0" m "(st1, w1)"] by (simp add: m)
  have "\<forall>i. i < m \<longrightarrow>
     next_counts model source (after model source scale i ?c1') = None \<or>
     next_counts model source (after model source scale i ?c1') = Some []"
  proof (intro allI impI)
    fix i assume "i < m"
    then have "0 < Suc i \<and> Suc i < j" by (simp add: m)
    with between have "next_counts model source (after model source scale (Suc i) (st1, w1)) = None \<or>
       next_counts model source (after model source scale (Suc i) (st1, w1)) = Some []"
      by blast
    moreover have "after model source scale (Suc i) (st1, w1) = after model source scale i ?c1'"
      using after_add[of model source scale "Suc 0" i "(st1, w1)"] by simp
    ultimately show "next_counts model source (after model source scale i ?c1') = None \<or>
     next_counts model source (after model source scale i ?c1') = Some []"
      by simp
  qed
  from after_timer[OF this]
  have timer: "last_alert_time (ready source (fst ?c2)) = sample_time w1"
    by (simp add: c2 r1 t1)
  show "last_alert_time (ready source (fst ?c2)) = sample_time w1" by (rule timer)
  obtain st2 w2 where p: "?c2 = (st2, w2)" by (cases ?c2)
  have ok2: "store_ok w2" using after_store_ok[OF ok, of model source scale j st1] by (simp add: p)
  have q2': "next_counts model source (st2, w2) = Some counts2" using q2(1) by (simp add: p)
  note a2 = step_alert[OF q2' ok2, of scale]
  have s2: "?c2' = snd (gen_next model source scale (st2, w2))"
    by (simp add: after_Suc p)
  have tm: "last_alert_time (ready source st2) = sample_time w1" using timer by (simp add: p)
  show "emitted (snd ?c2) (snd ?c2') \<longleftrightarrow> sample_time (snd ?c2) - sample_time w1 > 3"
    using a2(2) q2(2) by (simp add: s2 p tm)
  show "fps_now (snd ?c2') = Some (PyFloat (smoothed_fps (fst ?c2')))"
    using a2(4) by (simp add: s2)
  show "counts_now (snd ?c2') = Some (stored_counts counts2)"
    using a2(5) by (simp add: s2)
  show "last_alert_time (fst ?c2') = sample_time (snd ?c2)"
    if "sample_time (snd ?c2) - sample_time w1 > 3"
    using a2(3) q2(2) that by (simp add: s2 p tm)
  show "alert_now (snd ?c2') = alert_now (snd ?c2) \<and> last_alert_time (fst ?c2') = sample_time w1"
    if "\<not> sample_time (snd ?c2) - sample_time w1 > 3"
    using a2(3) a2(6) q2(2) that by (simp add: s2 p tm)
qed

lemma empty_event:
  assumes "store_ok w" "next_counts model source (st, w) = Some []"
  shows "\<not> emitted w (snd (snd (gen_next model source scale (st, w))))"
    and "alert_now (snd (snd (gen_next model source scale (st, w)))) = alert_now w"
    and "last_alert_time (fst (snd (gen_next model source scale (st, w)))) =
           last_alert_time (ready source st)"
    and "counts_now (snd (snd (gen_next model source scale (st, w)))) = Some []"
    and "fps_now (snd (snd (gen_next model source scale (st, w)))) =
           Some (PyFloat (smoothed_fps (fst (snd (gen_next model source scale (st, w))))))"
proof -
  note a = step_alert[OF assms(2,1), of scale]
  show "\<not> emitted w (snd (snd (gen_next model source scale (st, w))))" using a(2) by simp
  show "alert_now (snd (snd (gen_next model source scale (st, w)))) = alert_now w"
    using a(6) by simp
  show "last_alert_time (fst (snd (gen_next model source scale (st, w)))) =
           last_alert_time (ready source st)" using a(3) by simp
  show "counts_now (snd (snd (gen_next model source scale (st, w)))) = Some []"
    using a(5) by (simp add: stored_counts_def)
  show "fps_now (snd (snd (gen_next model source scale (st, w)))) =
           Some (PyFloat (smoothed_fps (fst (snd (gen_next model source scale (st, w))))))"
    by (rule a(4))
qed

subsection \<open>The end of a run\<close>

lemma run_next_counts:
  assumes "source_ok model source scale" "k < length source"
  shows "next_counts model source (after model source scale k (generate_frames, w)) =
     (if Suc k mod 6 = 0
      then (case count_results model (detect model (source ! k)) [] of
              Inl err \<Rightarrow> None | Inr counts \<Rightarrow> Some counts)
      else None)"
proof -
  obtain st w' where c: "after model source scale k (generate_frames, w) = (st, w')"
    by (cases "after model source scale k (generate_frames, w)")
  from run_inv[OF assms(1), of k w] assms(2) c
  have inv: "status st \<noteq> Finished" "pending (cap (ready source st)) = drop k source"
    "frame_count (ready source st) = k"
    by simp_all
  have p: "pending (cap (ready source st)) = source ! k # drop (Suc k) source"
    using inv(2) assms(2) by (simp add: Cons_nth_drop_Suc)
  show ?thesis
    by (simp add: c next_counts_def inv(1) p inv(3))
qed

lemma run_world_skip:
  assumes "source_ok model source scale" "k < length source" "Suc k mod 6 \<noteq> 0"
  shows "snd (after model source scale (Suc k) (generate_frames, w)) =
     snd (after model source scale k (generate_frames, w))"
  by (rule run_skip[OF assms, of w]) (simp add: after_Suc)





subsection \<open>A detector that finds one person in every frame\<close>

lemma str_int_small: "str_int 1 = ''1''" "str_int 2 = ''2''"
  by (simp_all add: str_int_def str_nat.simps digit_char_def)

lemma skip_index: "i < 5 \<Longrightarrow> Suc i mod 6 \<noteq> 0"
  by simp

lemma skip_index_6: "i < 5 \<Longrightarrow> Suc (6 + i) mod 6 \<noteq> 0"
proof -
  assume l: "i < 5"
  have "Suc (6 + i) = 6 + Suc i" by simp
  then have "Suc (6 + i) mod 6 = Suc i mod 6" by (simp only: mod_add_self1)
  also have "\<dots> = Suc i" using l by simp
  finally show ?thesis by simp
qed


lemma one_person_frame:
  assumes "one_person model source" "fr \<in> set source"
  obtains b where "detect model fr = [\<lparr>boxes = [b]\<rparr>]" "names model (cls b) = Some ''person''"
proof -
  from assms have c: "(case detect model fr of
           [r] \<Rightarrow> (case boxes r of [b] \<Rightarrow> names model (cls b) = Some ''person'' | _ \<Rightarrow> False)
         | _ \<Rightarrow> False)"
    by (simp add: one_person_def)
  then obtain r where r: "detect model fr = [r]"
    by (cases "detect model fr") (auto split: list.splits)
  with c obtain b where b: "boxes r = [b]" "names model (cls b) = Some ''person''"
    by (cases "boxes r") (auto split: list.splits)
  have "r = \<lparr>boxes = [b]\<rparr>" using b(1) by (cases r) simp
  with r b(2) show thesis by (intro that) simp_all
qed

lemma one_person_counts:
  assumes "one_person model source" "fr \<in> set source"
  shows "count_results model (detect model fr) [] = Inr [(''person'', 1)]"
    and "results_named model (detect model fr)"
proof -
  from assms obtain b where b: "detect model fr = [\<lparr>boxes = [b]\<rparr>]"
    "names model (cls b) = Some ''person''"
    by (rule one_person_frame)
  show "count_results model (detect model fr) [] = Inr [(''person'', 1)]"
    by (simp add: b is_allowed_class_def allowed_classes_def dict_get_def)
  show "results_named model (detect model fr)"
    by (simp add: b results_named_def)
qed

lemma one_person_named: "one_person model source \<Longrightarrow> source_named model source"
  by (simp add: source_named_def one_person_counts(2))

lemma person_plurality: "plurality [(''person'', 1)] = (''person'', 1)"
  by (simp add: plurality_def py_max_items_def)

lemma person_text: "alert_text 1 ''person'' = ''1 person detected''"
  by (simp add: alert_text_def str_int_small)

lemma run_world_const:
  assumes "source_ok model source scale" "k + m \<le> length source"
    and "\<forall>i. i < m \<longrightarrow> Suc (k + i) mod 6 \<noteq> 0"
  shows "snd (after model source scale (k + m) (generate_frames, w)) =
     snd (after model source scale k (generate_frames, w))"
  using assms(2,3)
proof (induction m)
  case 0
  show ?case by simp
next
  case (Suc m)
  have "snd (after model source scale (Suc (k + m)) (generate_frames, w)) =
      snd (after model source scale (k + m) (generate_frames, w))"
    using Suc.prems by (intro run_world_skip[OF assms(1)]) simp_all
  moreover have "snd (after model source scale (k + m) (generate_frames, w)) =
     snd (after model source scale k (generate_frames, w))"
    using Suc.prems by (intro Suc.IH) simp_all
  ultimately show ?case by simp
qed

lemma run_timer_const:
  assumes "source_ok model source scale" "k + m \<le> length source"
    and "\<forall>i. i < m \<longrightarrow> Suc (k + i) mod 6 \<noteq> 0"
  shows "last_alert_time (ready source (fst (after model source scale (k + m) (generate_frames, w)))) =
     last_alert_time (ready source (fst (after model source scale k (generate_frames, w))))"
proof -
  have "\<forall>i. i < m \<longrightarrow>
     next_counts model source
       (after model source scale i (after model source scale k (generate_frames, w))) = None \<or>
     next_counts model source
       (after model source scale i (after model source scale k (generate_frames, w))) = Some []"
  proof (intro allI impI)
    fix i assume i: "i < m"
    then have "k + i < length source" using assms(2) by simp
    from run_next_counts[OF assms(1) this, of w] assms(3) i
    have "next_counts model source (after model source scale (k + i) (generate_frames, w)) = None"
      by simp
    then show "next_counts model source
       (after model source scale i (after model source scale k (generate_frames, w))) = None \<or>
     next_counts model source
       (after model source scale i (after model source scale k (generate_frames, w))) = Some []"
      by (simp add: after_add)
  qed
  from after_timer[OF this] show ?thesis by (simp add: after_add)
qed

lemma person_run:
  assumes p: "one_person model source" and len: "length source = 12" and ok: "store_ok w"
    and rz: "source_resizable scale source"
  shows "snd (after model source scale 5 (generate_frames, w)) = w"
    and "emitted w (snd (after model source scale 6 (generate_frames, w))) \<longleftrightarrow>
           clock w (ticks w + 2) > 3"
    and "last_alert_time (ready source (fst (after model source scale 11 (generate_frames, w)))) =
           (if clock w (ticks w + 2) > 3 then clock w (ticks w + 2) else 0)"
    and "snd (after model source scale 11 (generate_frames, w)) =
           snd (after model source scale 6 (generate_frames, w))"
    and "clock w (ticks w + 2) > 3 \<Longrightarrow>
           (emitted (snd (after model source scale 11 (generate_frames, w)))
              (snd (after model source scale 12 (generate_frames, w))) \<longleftrightarrow>
            clock w (ticks w + 7) - clock w (ticks w + 2) > 3)"
    and "model_calls (snd (after model source scale 12 (generate_frames, w))) =
           model_calls w @ [source ! 5, source ! 11]"
    and "clock w (ticks w + 2) > 3 \<Longrightarrow>
           alert_now (snd (after model source scale 6 (generate_frames, w))) =
             Some [(''message'', PyStr ''1 person detected''),
                   (''ts'', PyFloat (clock w (ticks w + 4)))]"
    and "clock w (ticks w + 2) > 3 \<Longrightarrow> \<not> clock w (ticks w + 7) - clock w (ticks w + 2) > 3 \<Longrightarrow>
           alert_now (snd (after model source scale 12 (generate_frames, w))) =
             alert_now (snd (after model source scale 6 (generate_frames, w)))"
    and "ticks (snd (after model source scale 6 (generate_frames, w))) =
           ticks w + (if clock w (ticks w + 2) > 3 then 5 else 4)"
proof -
  let ?c0 = "(generate_frames, w)"
  let ?counts = "[(''person'', 1)] :: (string \<times> int) list"
  have n: "source_ok model source scale"
    using one_person_named[OF p] rz by (simp add: source_ok_def)
  have w5: "snd (after model source scale (0 + 5) ?c0) = snd (after model source scale 0 ?c0)"
    by (rule run_world_const[OF n]) (simp_all add: len)
  then show W5: "snd (after model source scale 5 ?c0) = w" by (simp add: after_0)
  have t5: "last_alert_time (ready source (fst (after model source scale (0 + 5) ?c0))) =
      last_alert_time (ready source (fst (after model source scale 0 ?c0)))"
    by (rule run_timer_const[OF n]) (simp_all add: len)
  then have T5: "last_alert_time (ready source (fst (after model source scale 5 ?c0))) = 0"
    by (simp add: after_0 ready_generate_frames)
  have in5: "source ! 5 \<in> set source" and in11: "source ! 11 \<in> set source"
    by (simp_all add: len)
  have "next_counts model source (after model source scale 5 ?c0) = Some ?counts"
    using run_next_counts[OF n, of 5 w] by (simp add: len one_person_counts(1)[OF p in5])
  moreover obtain st5 where c5: "after model source scale 5 ?c0 = (st5, w)"
    using W5 by (cases "after model source scale 5 ?c0") simp
  ultimately have nc5: "next_counts model source (st5, w) = Some ?counts" by simp
  note a5 = step_alert[OF nc5 ok, of scale]
  have s6: "after model source scale 6 ?c0 = snd (gen_next model source scale (st5, w))"
    using after_Suc[of model source scale 5 ?c0] by (simp add: c5)
  have tm5: "last_alert_time (ready source st5) = 0" using T5 by (simp add: c5)
  have st: "sample_time w = clock w (ticks w + 2)" by (simp add: sample_time_def)
  show E6: "emitted w (snd (after model source scale 6 ?c0)) \<longleftrightarrow> clock w (ticks w + 2) > 3"
    using a5(2) by (simp add: s6 tm5 st)
  have T6: "last_alert_time (fst (after model source scale 6 ?c0)) =
      (if clock w (ticks w + 2) > 3 then clock w (ticks w + 2) else 0)"
    using a5(3) by (simp add: s6 tm5 st)
  have r6: "ready source (fst (after model source scale 6 ?c0)) = fst (after model source scale 6 ?c0)"
    using a5(1) by (intro ready_started) (simp add: s6)
  show k6: "ticks (snd (after model source scale 6 ?c0)) =
      ticks w + (if clock w (ticks w + 2) > 3 then 5 else 4)"
    using a5(8) by (simp add: s6 tm5 st)
  have m6: "model_calls (snd (after model source scale 6 ?c0)) = model_calls w @ [source ! 5]"
  proof -
    have "pending (cap (ready source st5)) = drop 5 source"
      using run_inv[OF n, of 5 w] by (simp add: len c5)
    then have "hd (pending (cap (ready source st5))) = source ! 5"
      by (simp add: hd_drop_conv_nth len)
    then show ?thesis using a5(9) by (simp add: s6)
  qed
  have c6: "clock (snd (after model source scale 6 ?c0)) = clock w"
    by (rule after_clock)
  have ok6: "store_ok (snd (after model source scale 6 ?c0))"
    by (rule after_store_ok[OF ok])
  have cond: "\<forall>i. i < 5 \<longrightarrow> Suc (6 + i) mod 6 \<noteq> 0"
    using skip_index_6 by blast
  have w11: "snd (after model source scale (6 + 5) ?c0) = snd (after model source scale 6 ?c0)"
    by (rule run_world_const[OF n _ cond]) (simp add: len)
  then show W11: "snd (after model source scale 11 ?c0) = snd (after model source scale 6 ?c0)"
    by simp
  have t11: "last_alert_time (ready source (fst (after model source scale (6 + 5) ?c0))) =
      last_alert_time (ready source (fst (after model source scale 6 ?c0)))"
    by (rule run_timer_const[OF n _ cond]) (simp add: len)
  then show T11: "last_alert_time (ready source (fst (after model source scale 11 ?c0))) =
      (if clock w (ticks w + 2) > 3 then clock w (ticks w + 2) else 0)"
    by (simp add: r6 T6)
  let ?w6 = "snd (after model source scale 6 ?c0)"
  have "next_counts model source (after model source scale 11 ?c0) = Some ?counts"
    using run_next_counts[OF n, of 11 w] by (simp add: len one_person_counts(1)[OF p in11])
  moreover obtain st11 where c11: "after model source scale 11 ?c0 = (st11, ?w6)"
    using W11 by (cases "after model source scale 11 ?c0") simp
  ultimately have nc11: "next_counts model source (st11, ?w6) = Some ?counts" by simp
  note a11 = step_alert[OF nc11 ok6, of scale]
  have s12: "after model source scale 12 ?c0 = snd (gen_next model source scale (st11, ?w6))"
    using after_Suc[of model source scale 11 ?c0] by (simp add: c11)
  have tm11: "last_alert_time (ready source st11) =
      (if clock w (ticks w + 2) > 3 then clock w (ticks w + 2) else 0)"
    using T11 by (simp add: c11)
  have st6: "sample_time ?w6 = clock w (ticks w + (if clock w (ticks w + 2) > 3 then 7 else 6))"
    by (simp add: sample_time_def c6 k6 add.commute)
  show "emitted (snd (after model source scale 11 ?c0)) (snd (after model source scale 12 ?c0)) \<longleftrightarrow>
            clock w (ticks w + 7) - clock w (ticks w + 2) > 3"
    if "clock w (ticks w + 2) > 3"
    using a11(2) that by (simp add: s12 W11 tm11 st6)
  show "model_calls (snd (after model source scale 12 ?c0)) = model_calls w @ [source ! 5, source ! 11]"
  proof -
    have "pending (cap (ready source st11)) = drop 11 source"
      using run_inv[OF n, of 11 w] by (simp add: len c11)
    then have "hd (pending (cap (ready source st11))) = source ! 11"
      by (simp add: hd_drop_conv_nth len)
    then show ?thesis using a11(9) by (simp add: s12 m6)
  qed
  show "alert_now (snd (after model source scale 6 ?c0)) =
      Some [(''message'', PyStr ''1 person detected''), (''ts'', PyFloat (clock w (ticks w + 4)))]"
    if "clock w (ticks w + 2) > 3"
    using a5(7) that by (simp add: s6 tm5 st person_plurality person_text)
  show "alert_now (snd (after model source scale 12 ?c0)) = alert_now (snd (after model source scale 6 ?c0))"
    if "clock w (ticks w + 2) > 3" "\<not> clock w (ticks w + 7) - clock w (ticks w + 2) > 3"
    using a11(6) that by (simp add: s12 tm11 st6)
qed


subsection \<open>Closing the generator\<close>



subsection \<open>Evaluation of the example inputs\<close>

lemma street_counts:
  "count_results street_model (detect street_model fr) [] = Inr [(''person'', 1), (''car'', 2)]"
  by (simp add: street_model_def box_of_def coco_names_def is_allowed_class_def allowed_classes_def
      dict_get_def)

lemma person_counts:
  "count_results person_model (detect person_model fr) [] = Inr [(''person'', 1)]"
  by (simp add: person_model_def box_of_def coco_names_def is_allowed_class_def allowed_classes_def
      dict_get_def)

lemma street_next_counts:
  "next_counts street_model source (after_five, w) = Some [(''person'', 1), (''car'', 2)]"
  by (simp add: next_counts_def ready_def after_five_def street_counts)

lemma street_plurality: "plurality [(''person'', 1), (''car'', 2)] = (''car'', 2)"
  by (simp add: plurality_def py_max_items_def)

lemma initial_fields:
  "clock (initial_world clk) = clk" "ticks (initial_world clk) = 0"
  "next_free (initial_world clk) = 3" "model_calls (initial_world clk) = []"
  by (simp_all add: initial_world_def)

lemma person_source_named: "source_named person_model source"
  by (simp add: source_named_def results_named_def person_model_def box_of_def coco_names_def)

lemma person_model_one_person: "one_person person_model source"
  by (simp add: one_person_def person_model_def box_of_def coco_names_def)

lemma twelve_frames_length: "length twelve_frames = 12"
  by (simp add: twelve_frames_def)


lemma cvRound_of_nat: "cvRound (real n) = int n"
  by (simp add: cvRound_def)

lemma frame_no_resizable: "resize_ok (frame_no i) 1"
  by (simp add: resize_ok_def frame_no_def cvRound_def)

lemma twelve_frames_resizable: "source_resizable 1 twelve_frames"
  by (auto simp: source_resizable_def twelve_frames_def frame_no_resizable)

lemma laptop_next_counts: "next_counts laptop_model source (after_five, w) = Some []"
  by (simp add: next_counts_def ready_def after_five_def laptop_model_def box_of_def coco_names_def
      is_allowed_class_def allowed_classes_def)

lemma person_source_ok: "source_ok person_model twelve_frames 1"
  by (simp add: source_ok_def person_source_named twelve_frames_resizable)

lemma person_next_counts:
  assumes "k < 12"
  shows "next_counts person_model twelve_frames
      (after person_model twelve_frames 1 k (generate_frames, w)) =
    (if Suc k mod 6 = 0 then Some [(''person'', 1)] else None)"
  using run_next_counts[OF person_source_ok, of k w] assms
  by (simp add: twelve_frames_length person_counts)




section \<open>Claims about the frame generator\<close>



text \<open>
  Claim C4. Whatever the detector returns, the counts that a sampling pass builds have only
  keys from \<open>allowed_classes\<close>, and those counts are what the pass stores. The counts
  dictionary of the store has only such keys initially, after every resumption of any generator
  that starts from such a state, and hence at every point of a run from the initial state.
\<close>

theorem C4_counts_within_allowlist:
  "(\<forall>model rs counts. count_results model rs [] = Inr counts \<longrightarrow>
      fst ` set counts \<subseteq> set allowed_classes) \<and>
   (\<forall>model source scale st w counts.
      store_ok w \<and> next_counts model source (st, w) = Some counts \<longrightarrow>
      counts_now (snd (snd (gen_next model source scale (st, w)))) = Some (stored_counts counts) \<and>
      fst ` set (stored_counts counts) \<subseteq> set allowed_classes) \<and>
   (\<forall>clk. counts_allowed (initial_world clk)) \<and>
   (\<forall>model source scale st w.
      store_ok w \<and> counts_allowed w \<longrightarrow>
      store_ok (snd (snd (gen_next model source scale (st, w)))) \<and>
      counts_allowed (snd (snd (gen_next model source scale (st, w))))) \<and>
   (\<forall>model source scale k clk.
      counts_allowed (snd (after model source scale k (generate_frames, initial_world clk))))"
proof (intro conjI allI impI)
  fix model rs and counts :: "(string \<times> int) list"
  assume "count_results model rs [] = Inr counts"
  then show "fst ` set counts \<subseteq> set allowed_classes"
    by (rule count_results_keys) simp
next
  fix model source scale st w counts
  assume a: "store_ok w \<and> next_counts model source (st, w) = Some counts"
  then have ok: "store_ok w" and nc: "next_counts model source (st, w) = Some counts" by simp_all
  let ?w' = "snd (snd (gen_next model source scale (st, w)))"
  have "counts_now ?w' = Some (stored_counts counts) \<and> fst ` set counts \<subseteq> set allowed_classes"
  proof (rule gen_next_sampled[OF nc, of scale])
    fix fr rest fr'
    assume k: "fst ` set counts \<subseteq> set allowed_classes"
      and g: "gen_next model source scale (st, w) =
       (sent fr' scale,
        (ready source st)\<lparr>status := status_sent fr' scale,
           cap := (cap (ready source st))\<lparr>pending := rest\<rparr>,
           frame_count := Suc (frame_count (ready source st)),
           smoothed_fps := smooth (smoothed_fps (ready source st)) (instant_of (sample_dt w)),
           last_results := Some (detect model fr),
           last_alert_time :=
             (if counts \<noteq> [] \<and> sample_time w - last_alert_time (ready source st) > 3
              then sample_time w else last_alert_time (ready source st))\<rparr>,
        update_latest_stats (smooth (smoothed_fps (ready source st)) (instant_of (sample_dt w)))
          (stored_counts counts)
          (alert_of counts (sample_time w) (last_alert_time (ready source st)))
          (before_update fr counts w))"
    have w': "?w' = update_latest_stats (smooth (smoothed_fps (ready source st)) (instant_of (sample_dt w)))
          (stored_counts counts)
          (alert_of counts (sample_time w) (last_alert_time (ready source st)))
          (before_update fr counts w)"
      by (simp add: g)
    show ?thesis
      using pushed_store(3)[OF ok before_update_frame(1,2) w'] k by simp
  qed
  then show "counts_now ?w' = Some (stored_counts counts)"
    and "fst ` set (stored_counts counts) \<subseteq> set allowed_classes"
    by (simp_all add: fst_stored_counts)
next
  fix clk show "counts_allowed (initial_world clk)" by (rule initial_counts_allowed)
next
  fix model source scale st w
  assume a: "store_ok w \<and> counts_allowed w"
  then show "store_ok (snd (snd (gen_next model source scale (st, w))))"
    by (simp add: gen_next_store(1))
  from a show "counts_allowed (snd (snd (gen_next model source scale (st, w))))"
    by (simp add: gen_next_store(2))
next
  fix model source scale k clk
  show "counts_allowed (snd (after model source scale k (generate_frames, initial_world clk)))"
    using after_store[OF store_ok_initial initial_counts_allowed] by simp
qed

text \<open>
  Claim C5. Whenever a resumption in a well-formed state emits an alert, it was a sampling pass
  with counts \<open>counts\<close>, and the stored message is the decimal count, a space, the class and
  \<^verbatim>\<open>" detected"\<close>, for an item \<open>(cls, n)\<close> of the counts such that every earlier item has a
  smaller count and every later item has no larger count; \<open>n\<close> is \<open>counts[cls]\<close> and at
  least one. The timestamp is the fifth clock value read by the pass.
\<close>

theorem C5_alert_text:
  assumes "store_ok w" "emitted w (snd (snd (gen_next model source scale (st, w))))"
  shows "\<exists>counts cls n pre post.
     next_counts model source (st, w) = Some counts \<and>
     counts = pre @ (cls, n) # post \<and>
     (\<forall>p \<in> set pre. snd p < n) \<and> (\<forall>p \<in> set post. snd p \<le> n) \<and>
     map_of counts cls = Some n \<and> 1 \<le> n \<and>
     alert_now (snd (snd (gen_next model source scale (st, w)))) =
       Some [(''message'', PyStr (str_int n @ '' '' @ cls @ '' detected'')),
             (''ts'', PyFloat (clock w (ticks w + 4)))]"
proof (cases "next_counts model source (st, w)")
  case None
  have "\<not> emitted w (snd (snd (gen_next model source scale (st, w))))"
    by (rule observe_cong(5)[OF gen_next_not_sampled(1)[OF None]])
  with assms(2) show ?thesis by simp
next
  case (Some counts)
  let ?w' = "snd (snd (gen_next model source scale (st, w)))"
  let ?am = "alert_of counts (sample_time w) (last_alert_time (ready source st))"
  show ?thesis
  proof (rule gen_next_sampled[OF Some, of scale])
    fix fr rest fr'
    assume wf: "counts_wf counts"
      and g: "gen_next model source scale (st, w) =
       (sent fr' scale,
        (ready source st)\<lparr>status := status_sent fr' scale,
           cap := (cap (ready source st))\<lparr>pending := rest\<rparr>,
           frame_count := Suc (frame_count (ready source st)),
           smoothed_fps := smooth (smoothed_fps (ready source st)) (instant_of (sample_dt w)),
           last_results := Some (detect model fr),
           last_alert_time :=
             (if counts \<noteq> [] \<and> sample_time w - last_alert_time (ready source st) > 3
              then sample_time w else last_alert_time (ready source st))\<rparr>,
        update_latest_stats (smooth (smoothed_fps (ready source st)) (instant_of (sample_dt w)))
          (stored_counts counts) ?am (before_update fr counts w))"
    have w': "?w' = update_latest_stats (smooth (smoothed_fps (ready source st)) (instant_of (sample_dt w)))
          (stored_counts counts) ?am (before_update fr counts w)"
      by (simp add: g)
    note p = pushed_store[OF assms(1) before_update_frame(1,2) w']
    have t: "truthy ?am" using p(4) assms(2) by simp
    then have ne: "counts \<noteq> []" by (simp add: truthy_alert_of)
    obtain cls n where pl: "plurality counts = (cls, n)" by (cases "plurality counts")
    have "counts \<noteq> [] \<and> sample_time w - last_alert_time (ready source st) > 3"
      using t by (simp add: truthy_alert_of)
    then have am: "?am = Some (alert_text n cls)"
      by (simp add: alert_of_def pl)
    have "alert_now ?w' = Some [(''message'', PyStr (alert_text n cls)),
        (''ts'', PyFloat (clock (before_update fr counts w) (Suc (ticks (before_update fr counts w)))))]"
      by (rule p(6)[OF am alert_text_nonempty])
    then have al: "alert_now ?w' = Some [(''message'', PyStr (str_int n @ '' '' @ cls @ '' detected'')),
             (''ts'', PyFloat (clock w (ticks w + 4)))]"
      using ne by (simp add: before_update_frame alert_text_def add.commute)
    from plurality_props[OF ne wf] obtain pre post where
      d: "counts = pre @ (cls, n) # post" "\<forall>p \<in> set pre. snd p < n" "\<forall>p \<in> set post. snd p \<le> n"
      and mo: "map_of counts cls = Some n" and ge: "1 \<le> n"
      unfolding pl by auto
    show ?thesis
      using Some d mo ge al by (intro exI[of _ counts] exI[of _ cls] exI[of _ n] exI[of _ pre] exI[of _ post]) simp
  qed
qed

theorem C5_alert_text_witness:
  "store_ok (initial_world wall_clock) \<and>
   emitted (initial_world wall_clock)
     (snd (snd (gen_next street_model [] 1 (after_five, initial_world wall_clock)))) \<and>
   alert_now (snd (snd (gen_next street_model [] 1 (after_five, initial_world wall_clock)))) =
     Some [(''message'', PyStr ''2 car detected''), (''ts'', PyFloat (1000 + 4 / 100))]"
proof -
  let ?w = "initial_world wall_clock"
  let ?w' = "snd (snd (gen_next street_model [] 1 (after_five, ?w)))"
  let ?counts = "[(''person'', 1), (''car'', 2)] :: (string \<times> int) list"
  have ok: "store_ok ?w" by (rule store_ok_initial)
  have nc: "next_counts street_model [] (after_five, ?w) = Some ?counts"
    by (rule street_next_counts)
  have e: "emitted ?w ?w'"
  proof (rule gen_next_sampled[OF nc, of 1])
    fix fr rest fr'
    assume g: "gen_next street_model [] 1 (after_five, ?w) =
       (sent fr' 1,
        (ready [] after_five)\<lparr>status := status_sent fr' 1,
           cap := (cap (ready [] after_five))\<lparr>pending := rest\<rparr>,
           frame_count := Suc (frame_count (ready [] after_five)),
           smoothed_fps := smooth (smoothed_fps (ready [] after_five)) (instant_of (sample_dt ?w)),
           last_results := Some (detect street_model fr),
           last_alert_time :=
             (if ?counts \<noteq> [] \<and> sample_time ?w - last_alert_time (ready [] after_five) > 3
              then sample_time ?w else last_alert_time (ready [] after_five))\<rparr>,
        update_latest_stats (smooth (smoothed_fps (ready [] after_five)) (instant_of (sample_dt ?w)))
          (stored_counts ?counts)
          (alert_of ?counts (sample_time ?w) (last_alert_time (ready [] after_five)))
          (before_update fr ?counts ?w))"
    have w': "?w' = update_latest_stats (smooth (smoothed_fps (ready [] after_five)) (instant_of (sample_dt ?w)))
          (stored_counts ?counts)
          (alert_of ?counts (sample_time ?w) (last_alert_time (ready [] after_five)))
          (before_update fr ?counts ?w)"
      by (simp add: g)
    have "truthy (alert_of ?counts (sample_time ?w) (last_alert_time (ready [] after_five)))"
      by (simp add: truthy_alert_of sample_time_def initial_fields wall_clock_def ready_def
          after_five_def)
    then show ?thesis
      using pushed_store(4)[OF ok before_update_frame(1,2) w'] by simp
  qed
  from C5_alert_text[OF ok e] obtain counts cls n pre post where
    r: "next_counts street_model [] (after_five, ?w) = Some counts"
      "counts = pre @ (cls, n) # post"
      "\<forall>p \<in> set pre. snd p < n" "\<forall>p \<in> set post. snd p \<le> n"
      "alert_now ?w' = Some [(''message'', PyStr (str_int n @ '' '' @ cls @ '' detected'')),
             (''ts'', PyFloat (clock ?w (ticks ?w + 4)))]"
    by blast
  from r(1) nc have c: "counts = ?counts" by simp
  have "cls = ''car'' \<and> n = 2"
    using r(2,3,4) unfolding c by (auto simp: Cons_eq_append_conv)
  then have "alert_now ?w' = Some [(''message'', PyStr ''2 car detected''), (''ts'', PyFloat (1000 + 4 / 100))]"
    using r(5) by (simp add: str_int_small initial_fields wall_clock_def)
  with ok e show ?thesis by simp
qed

theorem C4_counts_within_allowlist_witness:
  "count_results street_model (detect street_model (frame_no 6)) [] =
     Inr [(''person'', 1), (''car'', 2)] \<and>
   fst ` set [(''person'', 1 :: int), (''car'', 2)] \<subseteq> set allowed_classes \<and>
   store_ok (initial_world wall_clock) \<and> counts_allowed (initial_world wall_clock) \<and>
   counts_allowed (snd (snd (gen_next street_model [] 1 (after_five, initial_world wall_clock)))) \<and>
   counts_now (snd (snd (gen_next street_model [] 1 (after_five, initial_world wall_clock)))) =
     Some [(''person'', PyInt 1), (''car'', PyInt 2)]"
proof -
  let ?w = "initial_world wall_clock"
  let ?counts = "[(''person'', 1), (''car'', 2)] :: (string \<times> int) list"
  note T = C4_counts_within_allowlist
  have cr: "count_results street_model (detect street_model (frame_no 6)) [] = Inr ?counts"
    by (rule street_counts)
  have k: "fst ` set ?counts \<subseteq> set allowed_classes"
    using T[THEN conjunct1, rule_format, OF cr] .
  have ok: "store_ok ?w" by (rule store_ok_initial)
  have ca: "counts_allowed ?w"
    using T[THEN conjunct2, THEN conjunct2, THEN conjunct1, rule_format] .
  have nc: "next_counts street_model [] (after_five, ?w) = Some ?counts"
    by (rule street_next_counts)
  have st: "counts_now (snd (snd (gen_next street_model [] 1 (after_five, ?w)))) =
      Some (stored_counts ?counts)"
    using T[THEN conjunct2, THEN conjunct1, rule_format, OF conjI[OF ok nc]] by simp
  have ca': "counts_allowed (snd (snd (gen_next street_model [] 1 (after_five, ?w))))"
    using T[THEN conjunct2, THEN conjunct2, THEN conjunct2, THEN conjunct1, rule_format,
        OF conjI[OF ok ca]] by simp
  show ?thesis
    using cr k ok ca ca' st by (simp add: stored_counts_def)
qed



text \<open>
  Claim C3. Take a sampling pass with non-empty counts that emits an alert, at time \<open>t1\<close> (its
  value of \<^verbatim>\<open>current_time\<close>), and the next sampling pass with non-empty counts, \<open>j\<close>
  resumptions later, at time \<open>t2\<close>; the resumptions in between are not sampling passes or
  count nothing. Then the second pass emits an alert iff \<open>t2 - t1 > 3\<close>. It stores fps and
  counts in both cases; when it emits, the timer becomes \<open>t2\<close>; when it does not, the stored
  alert and the timer (still \<open>t1\<close>) are unchanged. A sampling pass with empty counts emits no
  alert and leaves the stored alert and the timer unchanged, while it stores fps and counts.
\<close>

theorem C3_alert_cooldown:
  "(\<forall>st1 w1 j counts1 counts2.
      store_ok w1 \<and> next_counts model source (st1, w1) = Some counts1 \<and> counts1 \<noteq> [] \<and>
      emitted w1 (snd (after model source scale (Suc 0) (st1, w1))) \<and> 0 < j \<and>
      (\<forall>i. 0 < i \<and> i < j \<longrightarrow>
         next_counts model source (after model source scale i (st1, w1)) = None \<or>
         next_counts model source (after model source scale i (st1, w1)) = Some []) \<and>
      next_counts model source (after model source scale j (st1, w1)) = Some counts2 \<and>
      counts2 \<noteq> [] \<longrightarrow>
      (emitted (snd (after model source scale j (st1, w1)))
          (snd (after model source scale (Suc j) (st1, w1))) \<longleftrightarrow>
        sample_time (snd (after model source scale j (st1, w1))) - sample_time w1 > 3) \<and>
      fps_now (snd (after model source scale (Suc j) (st1, w1))) =
        Some (PyFloat (smoothed_fps (fst (after model source scale (Suc j) (st1, w1))))) \<and>
      counts_now (snd (after model source scale (Suc j) (st1, w1))) = Some (stored_counts counts2) \<and>
      (sample_time (snd (after model source scale j (st1, w1))) - sample_time w1 > 3 \<longrightarrow>
         last_alert_time (fst (after model source scale (Suc j) (st1, w1))) =
           sample_time (snd (after model source scale j (st1, w1)))) \<and>
      (\<not> sample_time (snd (after model source scale j (st1, w1))) - sample_time w1 > 3 \<longrightarrow>
         alert_now (snd (after model source scale (Suc j) (st1, w1))) =
           alert_now (snd (after model source scale j (st1, w1))) \<and>
         last_alert_time (fst (after model source scale (Suc j) (st1, w1))) = sample_time w1)) \<and>
   (\<forall>st w.
      store_ok w \<and> next_counts model source (st, w) = Some [] \<longrightarrow>
      \<not> emitted w (snd (snd (gen_next model source scale (st, w)))) \<and>
      alert_now (snd (snd (gen_next model source scale (st, w)))) = alert_now w \<and>
      last_alert_time (fst (snd (gen_next model source scale (st, w)))) =
        last_alert_time (ready source st) \<and>
      counts_now (snd (snd (gen_next model source scale (st, w)))) = Some [] \<and>
      fps_now (snd (snd (gen_next model source scale (st, w)))) =
        Some (PyFloat (smoothed_fps (fst (snd (gen_next model source scale (st, w)))))))"
proof (rule conjI)
  show "\<forall>st1 w1 j counts1 counts2.
      store_ok w1 \<and> next_counts model source (st1, w1) = Some counts1 \<and> counts1 \<noteq> [] \<and>
      emitted w1 (snd (after model source scale (Suc 0) (st1, w1))) \<and> 0 < j \<and>
      (\<forall>i. 0 < i \<and> i < j \<longrightarrow>
         next_counts model source (after model source scale i (st1, w1)) = None \<or>
         next_counts model source (after model source scale i (st1, w1)) = Some []) \<and>
      next_counts model source (after model source scale j (st1, w1)) = Some counts2 \<and>
      counts2 \<noteq> [] \<longrightarrow>
      (emitted (snd (after model source scale j (st1, w1)))
          (snd (after model source scale (Suc j) (st1, w1))) \<longleftrightarrow>
        sample_time (snd (after model source scale j (st1, w1))) - sample_time w1 > 3) \<and>
      fps_now (snd (after model source scale (Suc j) (st1, w1))) =
        Some (PyFloat (smoothed_fps (fst (after model source scale (Suc j) (st1, w1))))) \<and>
      counts_now (snd (after model source scale (Suc j) (st1, w1))) = Some (stored_counts counts2) \<and>
      (sample_time (snd (after model source scale j (st1, w1))) - sample_time w1 > 3 \<longrightarrow>
         last_alert_time (fst (after model source scale (Suc j) (st1, w1))) =
           sample_time (snd (after model source scale j (st1, w1)))) \<and>
      (\<not> sample_time (snd (after model source scale j (st1, w1))) - sample_time w1 > 3 \<longrightarrow>
         alert_now (snd (after model source scale (Suc j) (st1, w1))) =
           alert_now (snd (after model source scale j (st1, w1))) \<and>
         last_alert_time (fst (after model source scale (Suc j) (st1, w1))) = sample_time w1)"
  proof (intro allI impI)
    fix st1 w1 j counts1 counts2
    assume h: "store_ok w1 \<and> next_counts model source (st1, w1) = Some counts1 \<and> counts1 \<noteq> [] \<and>
      emitted w1 (snd (after model source scale (Suc 0) (st1, w1))) \<and> 0 < j \<and>
      (\<forall>i. 0 < i \<and> i < j \<longrightarrow>
         next_counts model source (after model source scale i (st1, w1)) = None \<or>
         next_counts model source (after model source scale i (st1, w1)) = Some []) \<and>
      next_counts model source (after model source scale j (st1, w1)) = Some counts2 \<and>
      counts2 \<noteq> []"
    then have ok: "store_ok w1"
      and q1: "next_counts model source (st1, w1) = Some counts1"
      and e1: "emitted w1 (snd (after model source scale (Suc 0) (st1, w1)))"
      and j: "0 < j"
      and between: "\<forall>i. 0 < i \<and> i < j \<longrightarrow>
         next_counts model source (after model source scale i (st1, w1)) = None \<or>
         next_counts model source (after model source scale i (st1, w1)) = Some []"
      and q2: "next_counts model source (after model source scale j (st1, w1)) = Some counts2"
        "counts2 \<noteq> []"
      by simp_all
    note t = two_events[OF ok q1 e1 j between q2]
    show "(emitted (snd (after model source scale j (st1, w1)))
          (snd (after model source scale (Suc j) (st1, w1))) \<longleftrightarrow>
        sample_time (snd (after model source scale j (st1, w1))) - sample_time w1 > 3) \<and>
      fps_now (snd (after model source scale (Suc j) (st1, w1))) =
        Some (PyFloat (smoothed_fps (fst (after model source scale (Suc j) (st1, w1))))) \<and>
      counts_now (snd (after model source scale (Suc j) (st1, w1))) = Some (stored_counts counts2) \<and>
      (sample_time (snd (after model source scale j (st1, w1))) - sample_time w1 > 3 \<longrightarrow>
         last_alert_time (fst (after model source scale (Suc j) (st1, w1))) =
           sample_time (snd (after model source scale j (st1, w1)))) \<and>
      (\<not> sample_time (snd (after model source scale j (st1, w1))) - sample_time w1 > 3 \<longrightarrow>
         alert_now (snd (after model source scale (Suc j) (st1, w1))) =
           alert_now (snd (after model source scale j (st1, w1))) \<and>
         last_alert_time (fst (after model source scale (Suc j) (st1, w1))) = sample_time w1)"
      by (intro conjI impI t(2) t(3) t(4) t(5) conjunct1[OF t(6)] conjunct2[OF t(6)])
  qed
next
  show "\<forall>st w.
      store_ok w \<and> next_counts model source (st, w) = Some [] \<longrightarrow>
      \<not> emitted w (snd (snd (gen_next model source scale (st, w)))) \<and>
      alert_now (snd (snd (gen_next model source scale (st, w)))) = alert_now w \<and>
      last_alert_time (fst (snd (gen_next model source scale (st, w)))) =
        last_alert_time (ready source st) \<and>
      counts_now (snd (snd (gen_next model source scale (st, w)))) = Some [] \<and>
      fps_now (snd (snd (gen_next model source scale (st, w)))) =
        Some (PyFloat (smoothed_fps (fst (snd (gen_next model source scale (st, w))))))"
  proof (intro allI impI)
    fix st w
    assume "store_ok w \<and> next_counts model source (st, w) = Some []"
    then have a: "store_ok w" "next_counts model source (st, w) = Some []" by simp_all
    note e = empty_event[OF a, of scale]
    show "\<not> emitted w (snd (snd (gen_next model source scale (st, w)))) \<and>
      alert_now (snd (snd (gen_next model source scale (st, w)))) = alert_now w \<and>
      last_alert_time (fst (snd (gen_next model source scale (st, w)))) =
        last_alert_time (ready source st) \<and>
      counts_now (snd (snd (gen_next model source scale (st, w)))) = Some [] \<and>
      fps_now (snd (snd (gen_next model source scale (st, w)))) =
        Some (PyFloat (smoothed_fps (fst (snd (gen_next model source scale (st, w))))))"
      by (intro conjI e)
  qed
qed

theorem C3_alert_cooldown_witness:
  "store_ok (snd (after person_model twelve_frames 1 5 (generate_frames, initial_world wall_clock))) \<and>
   next_counts person_model twelve_frames
     (after person_model twelve_frames 1 5 (generate_frames, initial_world wall_clock)) =
     Some [(''person'', 1)] \<and>
   emitted (snd (after person_model twelve_frames 1 5 (generate_frames, initial_world wall_clock)))
     (snd (after person_model twelve_frames 1 6 (generate_frames, initial_world wall_clock))) \<and>
   next_counts person_model twelve_frames
     (after person_model twelve_frames 1 8 (generate_frames, initial_world wall_clock)) = None \<and>
   next_counts person_model twelve_frames
     (after person_model twelve_frames 1 11 (generate_frames, initial_world wall_clock)) =
     Some [(''person'', 1)] \<and>
   sample_time (snd (after person_model twelve_frames 1 5 (generate_frames, initial_world wall_clock))) =
     1000 + 2 / 100 \<and>
   \<not> sample_time (snd (after person_model twelve_frames 1 11 (generate_frames, initial_world wall_clock))) -
       sample_time (snd (after person_model twelve_frames 1 5 (generate_frames, initial_world wall_clock)))
       > 3 \<and>
   \<not> emitted (snd (after person_model twelve_frames 1 11 (generate_frames, initial_world wall_clock)))
     (snd (after person_model twelve_frames 1 12 (generate_frames, initial_world wall_clock))) \<and>
   counts_now (snd (after person_model twelve_frames 1 12 (generate_frames, initial_world wall_clock))) =
     Some [(''person'', PyInt 1)] \<and>
   alert_now (snd (after person_model twelve_frames 1 12 (generate_frames, initial_world wall_clock))) =
     alert_now (snd (after person_model twelve_frames 1 11 (generate_frames, initial_world wall_clock))) \<and>
   last_alert_time (fst (after person_model twelve_frames 1 12 (generate_frames, initial_world wall_clock))) =
     1000 + 2 / 100 \<and>
   store_ok (initial_world wall_clock) \<and>
   next_counts laptop_model [] (after_five, initial_world wall_clock) = Some [] \<and>
   \<not> emitted (initial_world wall_clock)
     (snd (snd (gen_next laptop_model [] 1 (after_five, initial_world wall_clock)))) \<and>
   counts_now (snd (snd (gen_next laptop_model [] 1 (after_five, initial_world wall_clock)))) = Some [] \<and>
   last_alert_time (fst (snd (gen_next laptop_model [] 1 (after_five, initial_world wall_clock)))) = 0"
proof -
  let ?w = "initial_world wall_clock"
  let ?c0 = "(generate_frames, ?w)"
  let ?A = "\<lambda>k. after person_model twelve_frames 1 k ?c0"
  let ?cs = "[(''person'', 1)] :: (string \<times> int) list"
  note pr = person_run[OF person_model_one_person twelve_frames_length store_ok_initial[of wall_clock]
      twelve_frames_resizable]
  have W5: "snd (?A 5) = ?w" by (rule pr(1))
  obtain st5 where c5: "?A 5 = (st5, ?w)" using W5 by (cases "?A 5") simp
  have add: "after person_model twelve_frames 1 i (st5, ?w) = ?A (5 + i)" for i
    by (simp add: after_add c5)
  have ok: "store_ok ?w" by (rule store_ok_initial)
  have q1: "next_counts person_model twelve_frames (st5, ?w) = Some ?cs"
    using person_next_counts[of 5 ?w] by (simp add: c5)
  have t6: "clock ?w (ticks ?w + 2) > 3" by (simp add: initial_fields wall_clock_def)
  have late: "\<not> clock ?w (ticks ?w + 7) - clock ?w (ticks ?w + 2) > 3"
    by (simp add: initial_fields wall_clock_def)
  have e6: "emitted ?w (snd (?A 6))" using pr(2) t6 by simp
  have e1: "emitted ?w (snd (after person_model twelve_frames 1 (Suc 0) (st5, ?w)))"
    using e6 by (simp add: add)
  have between: "\<forall>i. 0 < i \<and> i < 6 \<longrightarrow>
      next_counts person_model twelve_frames (after person_model twelve_frames 1 i (st5, ?w)) = None \<or>
      next_counts person_model twelve_frames (after person_model twelve_frames 1 i (st5, ?w)) = Some []"
  proof (intro allI impI)
    fix i :: nat assume i: "0 < i \<and> i < 6"
    then obtain m where m: "i = Suc m" "m < 5" by (cases i) auto
    have "Suc (5 + i) = Suc (6 + m)" by (simp add: m)
    then have nz: "Suc (5 + i) mod 6 \<noteq> 0" using skip_index_6[OF m(2)] by simp
    have "5 + i < 12" using i by simp
    from person_next_counts[OF this, of ?w] nz
    show "next_counts person_model twelve_frames (after person_model twelve_frames 1 i (st5, ?w)) = None \<or>
      next_counts person_model twelve_frames (after person_model twelve_frames 1 i (st5, ?w)) = Some []"
      by (simp add: add)
  qed
  have a11: "after person_model twelve_frames 1 6 (st5, ?w) = ?A 11" by (simp add: add)
  have a12: "after person_model twelve_frames 1 (Suc 6) (st5, ?w) = ?A 12" by (simp add: add)
  have q11: "next_counts person_model twelve_frames (?A 11) = Some ?cs"
    using person_next_counts[of 11 ?w] by simp
  have q2: "next_counts person_model twelve_frames (after person_model twelve_frames 1 6 (st5, ?w)) =
      Some ?cs"
    by (simp only: a11 q11)
  have ne: "?cs \<noteq> []" by simp
  have j: "(0::nat) < 6" by simp
  note R = C3_alert_cooldown[THEN conjunct1, rule_format,
      OF conjI[OF ok conjI[OF q1 conjI[OF ne conjI[OF e1 conjI[OF j conjI[OF between conjI[OF q2 ne]]]]]]],
      unfolded a11 a12]
  have ne12: "\<not> emitted (snd (?A 11)) (snd (?A 12))" using pr(5)[OF t6] late by simp
  have st5: "sample_time ?w = 1000 + 2 / 100"
    by (simp add: sample_time_def initial_fields wall_clock_def)
  have cond: "\<not> sample_time (snd (?A 11)) - sample_time ?w > 3"
    using R[THEN conjunct1] ne12 by simp
  have cn: "counts_now (snd (?A 12)) = Some [(''person'', PyInt 1)]"
    using R[THEN conjunct2, THEN conjunct2, THEN conjunct1] by (simp add: stored_counts_def)
  have keep: "alert_now (snd (?A 12)) = alert_now (snd (?A 11)) \<and>
      last_alert_time (fst (?A 12)) = sample_time ?w"
    using R[THEN conjunct2, THEN conjunct2, THEN conjunct2, THEN conjunct2, rule_format, OF cond] .
  have q8: "next_counts person_model twelve_frames (?A 8) = None"
    using person_next_counts[of 8 ?w] by simp
  have l: "next_counts laptop_model [] (after_five, ?w) = Some []" by (rule laptop_next_counts)
  note E = C3_alert_cooldown[THEN conjunct2, rule_format, OF conjI[OF ok l], where scale = 1]
  have lt: "last_alert_time (ready [] after_five) = 0" by (simp add: ready_def after_five_def)
  have 1: "store_ok (snd (?A 5))" "next_counts person_model twelve_frames (?A 5) = Some ?cs"
    "emitted (snd (?A 5)) (snd (?A 6))"
    "sample_time (snd (?A 5)) = 1000 + 2 / 100"
    "\<not> sample_time (snd (?A 11)) - sample_time (snd (?A 5)) > 3"
    using ok q1 e6 st5 cond by (simp_all add: c5)
  have 2: "last_alert_time (fst (?A 12)) = 1000 + 2 / 100" using keep st5 by simp
  have 3: "\<not> emitted ?w (snd (snd (gen_next laptop_model [] 1 (after_five, ?w))))"
    "counts_now (snd (snd (gen_next laptop_model [] 1 (after_five, ?w)))) = Some []"
    "last_alert_time (fst (snd (gen_next laptop_model [] 1 (after_five, ?w)))) = 0"
    using E lt by simp_all
  show ?thesis
    using 1 q8 q11 ne12 cn keep 2 ok l 3 by simp
qed





end
